theory Spec2Isabelle
  imports Complex_Main "HOL-Library.Word" "HOL-Library.Multiset"
begin

section \<open>Data model\<close>

text \<open>
  A Python \<open>str\<close> is a sequence of Unicode code points. Column labels may hold
  accented letters, so a label is a list of code points; \<open>py\<close> writes an ASCII
  literal of the source, such as \<open>'nps'\<close>, as such a list.
\<close>

type_synonym codepoint = nat
type_synonym pystr = "codepoint list"

definition py :: "string \<Rightarrow> pystr" where
  "py s = map of_char s"

text \<open>
  The numbers of a column are float64 values. Every comparison the analysis makes is
  against an integer constant and is exact on floats, so a finite float is modelled by the
  rational it denotes; the two infinities are kept (\<open>pd.to_numeric\<close> reads \<open>'inf'\<close>).
  NaN is the missing value of pandas and is the cell \<open>Missing\<close>.
\<close>

datatype numeric = NegInf | Fin rat | PosInf

fun num_le :: "numeric \<Rightarrow> numeric \<Rightarrow> bool" where
  "num_le NegInf _ = True"
| "num_le (Fin a) NegInf = False"
| "num_le (Fin a) (Fin b) = (a \<le> b)"
| "num_le (Fin a) PosInf = True"
| "num_le PosInf PosInf = True"
| "num_le PosInf _ = False"

datatype cell = Number numeric | Text pystr | Missing

text \<open>
  A DataFrame is a sequence of labelled columns; labels need not be distinct (two
  labels can collide after cleaning). \<open>df[var]\<close> raises \<open>KeyError\<close> on an
  absent label, is a Series when one column carries the label and a DataFrame of all the
  columns carrying it otherwise.
\<close>

type_synonym dataframe = "(pystr \<times> cell list) list"

datatype py_error = KeyError | TypeError | ValueError | ZeroDivisionError | UnicodeDecodeError

datatype selection = Series "cell list" | Frame "cell list list"

definition df_columns :: "dataframe \<Rightarrow> pystr list" where
  "df_columns df = map fst df"

definition getitem :: "dataframe \<Rightarrow> pystr \<Rightarrow> py_error + selection" where
  "getitem df var =
     (case filter (\<lambda>c. fst c = var) df of
        [] \<Rightarrow> Inl KeyError
      | [c] \<Rightarrow> Inr (Series (snd c))
      | cs \<Rightarrow> Inr (Frame (map snd cs)))"

section \<open>The NPS calculator\<close>

text \<open>
  \<open>pd.to_numeric(s, errors='coerce')\<close> keeps a number, turns a string into the number
  it spells or into NaN, and refuses anything that is not one-dimensional with
  \<open>TypeError\<close>. How pandas reads a string is the library's business: it is the
  parameter \<open>parse\<close>. \<open>dropna\<close> removes the NaNs.
\<close>

fun coerce :: "(pystr \<Rightarrow> numeric option) \<Rightarrow> cell \<Rightarrow> numeric option" where
  "coerce parse (Number v) = Some v"
| "coerce parse (Text s) = parse s"
| "coerce parse Missing = None"

fun to_numeric :: "(pystr \<Rightarrow> numeric option) \<Rightarrow> selection \<Rightarrow> py_error + numeric option list" where
  "to_numeric parse (Series col) = Inr (map (coerce parse) col)"
| "to_numeric parse (Frame cols) = Inl TypeError"

fun dropna :: "'a option list \<Rightarrow> 'a list" where
  "dropna [] = []"
| "dropna (None # xs) = dropna xs"
| "dropna (Some v # xs) = v # dropna xs"

text \<open>The three boolean masks of lines 113 to 115, and \<open>.sum()\<close> of a mask.\<close>

definition is_promoter :: "numeric \<Rightarrow> bool" where
  "is_promoter v = num_le (Fin 9) v"

definition is_passive :: "numeric \<Rightarrow> bool" where
  "is_passive v = (num_le (Fin 7) v \<and> num_le v (Fin 8))"

definition is_detractor :: "numeric \<Rightarrow> bool" where
  "is_detractor v = num_le v (Fin 6)"

definition mask_sum :: "bool list \<Rightarrow> nat" where
  "mask_sum bs = length (filter (\<lambda>b. b) bs)"

text \<open>
  A division is written as a step that can go wrong, so that "no division by zero" is a
  statement about the result. (numpy would answer nan or inf with a warning; the model
  marks the event.) The quotient itself is the exact one: float rounding is left out.
\<close>

definition true_divide :: "nat \<Rightarrow> nat \<Rightarrow> py_error + rat" where
  "true_divide a b = (if b = 0 then Inl ZeroDivisionError else Inr (of_nat a / of_nat b))"

definition and_then :: "'e + 'a \<Rightarrow> ('a \<Rightarrow> 'e + 'b) \<Rightarrow> 'e + 'b" where
  "and_then r f = (case r of Inl e \<Rightarrow> Inl e | Inr x \<Rightarrow> f x)"

text \<open>
  What the function prints, one constructor per \<open>print\<close>, carrying the values the
  line interpolates at full precision (the \<open>:.2f\<close> formatting is display only).
\<close>

datatype nps_message =
    Nps_header
  | Nps_column_not_found
  | No_valid_scores
  | Total_respondents nat
  | Promoters_line nat rat
  | Passives_line nat rat
  | Detractors_line nat rat
  | Final_score rat

definition nps_report :: "numeric list \<Rightarrow> py_error + nps_message list" where
  "nps_report nps_scores =
     (let promoters = mask_sum (map is_promoter nps_scores);
          passives = mask_sum (map is_passive nps_scores);
          detractors = mask_sum (map is_detractor nps_scores);
          total_respondents = length nps_scores
      in if total_respondents = 0 then Inr [Nps_header, No_valid_scores]
         else
           and_then (true_divide promoters total_respondents) (\<lambda>pq.
           and_then (true_divide detractors total_respondents) (\<lambda>dq.
             let promoter_percentage = pq * 100;
                 detractor_percentage = dq * 100;
                 nps_score = promoter_percentage - detractor_percentage
             in and_then (true_divide passives total_respondents) (\<lambda>sq.
                  Inr [Nps_header,
                       Total_respondents total_respondents,
                       Promoters_line promoters promoter_percentage,
                       Passives_line passives (sq * 100),
                       Detractors_line detractors detractor_percentage,
                       Final_score nps_score]))))"

definition calculate_nps :: "(pystr \<Rightarrow> numeric option) \<Rightarrow> dataframe \<Rightarrow> py_error + nps_message list" where
  "calculate_nps parse df =
     (if py ''nps'' \<notin> set (df_columns df) then Inr [Nps_header, Nps_column_not_found]
      else
        and_then (getitem df (py ''nps'')) (\<lambda>sel.
        and_then (to_numeric parse sel) (\<lambda>coerced.
          nps_report (dropna coerced))))"

text \<open>The values of the field that count: the coerced column without its NaNs.\<close>

definition valid_scores :: "(pystr \<Rightarrow> numeric option) \<Rightarrow> cell list \<Rightarrow> numeric list" where
  "valid_scores parse col = dropna (map (coerce parse) col)"

text \<open>
  The band a value is assigned to: the masks that hold for it, in the order Detractor,
  Passive, Promoter. A value is in exactly one band when this list has one element.
\<close>

datatype band = Detractor | Passive | Promoter

definition bands_of :: "numeric \<Rightarrow> band list" where
  "bands_of v =
     (if is_detractor v then [Detractor] else []) @
     (if is_passive v then [Passive] else []) @
     (if is_promoter v then [Promoter] else [])"

text \<open>
  The lines of a full report, from the total and the three counts: what the function
  prints when there is at least one valid score.
\<close>

definition report_lines :: "nat \<Rightarrow> nat \<Rightarrow> nat \<Rightarrow> nat \<Rightarrow> nps_message list" where
  "report_lines t p s d =
     [Nps_header,
      Total_respondents t,
      Promoters_line p (of_nat p / of_nat t * 100),
      Passives_line s (of_nat s / of_nat t * 100),
      Detractors_line d (of_nat d / of_nat t * 100),
      Final_score (of_nat p / of_nat t * 100 - of_nat d / of_nat t * 100)]"

section \<open>The demographic tabulator\<close>

text \<open>
  \<open>Series.value_counts\<close> leaves out the missing values, counts each distinct value in
  a table filled in order of first appearance, and sorts by falling count. pandas does not
  promise an order among values of equal count; the model keeps them in order of first
  appearance. On a DataFrame whose columns share one label (what \<open>df[var]\<close> is when
  \<open>var\<close> labels two columns) \<open>value_counts\<close> groups by that label and raises
  \<open>ValueError\<close>.
\<close>

fun count_key :: "'k \<Rightarrow> ('k \<times> nat) list \<Rightarrow> ('k \<times> nat) list" where
  "count_key k [] = [(k, 1)]"
| "count_key k ((k', n) # t) =
     (if k = k' then (k', Suc n) # t else (k', n) # count_key k t)"

definition value_count :: "'k list \<Rightarrow> ('k \<times> nat) list" where
  "value_count ks = fold count_key ks []"

definition sorted_counts :: "'k list \<Rightarrow> ('k \<times> nat) list" where
  "sorted_counts ks = sort_key (\<lambda>kc. - int (snd kc)) (value_count ks)"

definition non_missing :: "cell list \<Rightarrow> cell list" where
  "non_missing col = filter (\<lambda>c. c \<noteq> Missing) col"

text \<open>
  The percentages are float64 numbers, and their second decimal depends on how the
  floats round: 23 rows of 160 are 14.375 percent, the float product is
  14.374999999999998, and 14.37 is printed. So the arithmetic of this function is that of
  IEEE 754 binary64, round to nearest, ties to even. A float is modelled by the rational
  it denotes, and \<open>float64\<close> rounds a rational to the nearest float: 53 significant
  bits at the binade of the number. The exponent range is not modelled (no overflow, no
  subnormal numbers): the numbers here are counts, shares in [0, 1] and percentages.
\<close>

text \<open>The number of binary digits of a positive integer.\<close>

function bitlen :: "int \<Rightarrow> nat" where
  "bitlen i = (if i \<le> 0 then 0 else Suc (bitlen (i div 2)))"
  by pat_completeness auto
termination
  by (relation "measure nat") auto

declare bitlen.simps [simp del]

text \<open>The binade of a positive number \<open>x\<close>: the \<open>e\<close> with \<open>2^e \<le> x < 2^(e+1)\<close>.\<close>

definition binade :: "rat \<Rightarrow> int" where
  "binade x =
     (if 1 \<le> x then int (bitlen \<lfloor>x\<rfloor>) - 1
      else - int (bitlen (\<lceil>1 / x\<rceil> - 1)))"

definition rint :: "rat \<Rightarrow> int" where
  "rint x =
     (let f = \<lfloor>x\<rfloor>; d = x - of_int f
      in if d < 1 / 2 then f else if 1 / 2 < d then f + 1 else if even f then f else f + 1)"

definition float64 :: "rat \<Rightarrow> rat" where
  "float64 x =
     (if x = 0 then 0
      else let ulp = 2 powi (binade \<bar>x\<bar> - 52) in of_int (rint (x / ulp)) * ulp)"

text \<open>
  \<open>normalize=True\<close> divides the counts, converted to floats, by their sum;
  \<open>.mul(100)\<close> multiplies each share by 100.
\<close>

definition value_counts_normalize :: "'k list \<Rightarrow> ('k \<times> rat) list" where
  "value_counts_normalize ks =
     (let counts = sorted_counts ks;
          total = sum_list (map snd counts)
      in map (\<lambda>kc. (fst kc, float64 (float64 (of_nat (snd kc)) / float64 (of_nat total))))
           counts)"

definition mul_100 :: "('k \<times> rat) list \<Rightarrow> ('k \<times> rat) list" where
  "mul_100 t = map (\<lambda>kp. (fst kp, float64 (snd kp * 100))) t"

text \<open>
  \<open>.round(2)\<close> is numpy's: multiply by 100, round to the nearest integer with ties to
  the even one (\<open>rint\<close>), divide by 100. \<open>.astype(str)\<close> then writes the float in
  the shortest decimal form that reads back as the same float; for the float nearest to a
  number of hundredths of this size that is the number of hundredths itself. \<open>round_2\<close> is
  this last number, the one the printed line shows before its \<open>%\<close>.
\<close>

definition round_2 :: "rat \<Rightarrow> rat" where
  "round_2 x = of_int (rint (float64 (x * 100))) / 100"

text \<open>
  The number of hundredths printed for a value counted \<open>c\<close> times among \<open>n\<close>
  non-missing rows: the chain above on one count.
\<close>

definition hundredths :: "nat \<Rightarrow> nat \<Rightarrow> int" where
  "hundredths c n =
     rint (float64 (float64 (float64 (float64 (of_nat c) / float64 (of_nat n)) * 100) * 100))"

text \<open>The unit roundoff of binary64.\<close>

definition eps :: rat where
  "eps = 1 / 2 ^ 53"

fun percentages :: "selection \<Rightarrow> py_error + (cell \<times> rat) list" where
  "percentages (Series col) =
     Inr (map (\<lambda>kp. (fst kp, round_2 (snd kp)))
            (mul_100 (value_counts_normalize (non_missing col))))"
| "percentages (Frame cols) = Inl ValueError"

datatype demo_message =
    Demographics_header
  | Info_analysis_of pystr
  | Percent_table "(cell \<times> rat) list"
  | Column_not_found pystr

definition demographic_vars :: "pystr list" where
  "demographic_vars = [py ''sexo'', py ''edad_tramo'', py ''depto'']"

text \<open>
  The loop over the expected fields. An exception ends the function: the result is the
  error, and what was printed before it is not kept.
\<close>

fun demographics_loop :: "dataframe \<Rightarrow> pystr list \<Rightarrow> py_error + demo_message list" where
  "demographics_loop df [] = Inr []"
| "demographics_loop df (var # vars) =
     (if var \<in> set (df_columns df)
      then and_then (getitem df var) (\<lambda>sel.
           and_then (percentages sel) (\<lambda>table.
           and_then (demographics_loop df vars) (\<lambda>rest.
             Inr (Info_analysis_of var # Percent_table table # rest))))
      else and_then (demographics_loop df vars) (\<lambda>rest.
             Inr (Column_not_found var # rest)))"

definition analyze_demographics :: "dataframe \<Rightarrow> py_error + demo_message list" where
  "analyze_demographics df =
     and_then (demographics_loop df demographic_vars) (\<lambda>out.
       Inr (Demographics_header # out))"

text \<open>
  What one turn of the loop does for a field: two lines if one column carries the label,
  the warning if none does, the error of \<open>value_counts\<close> if several do.
\<close>

definition field_report :: "dataframe \<Rightarrow> pystr \<Rightarrow> py_error + demo_message list" where
  "field_report df var =
     (case getitem df var of
        Inl e \<Rightarrow> Inr [Column_not_found var]
      | Inr sel \<Rightarrow> and_then (percentages sel) (\<lambda>table.
                   Inr [Info_analysis_of var, Percent_table table]))"

text \<open>
  No expected field labels more than one column: the datasets on which the tabulator
  does not raise.
\<close>

definition single_fields :: "dataframe \<Rightarrow> bool" where
  "single_fields df =
     list_all (\<lambda>w. length (filter (\<lambda>c. fst c = w) df) \<le> 1) demographic_vars"

section \<open>The column name normalizer\<close>

text \<open>
  \<open>str.lower\<close> and \<open>unicodedata.normalize('NFKD', _)\<close> read the interpreter's
  Unicode character database, which is no part of the repository: the normalizer takes
  the two functions as a parameter, and what is proved for every name is proved for every
  such pair.
\<close>

record unicode_db =
  str_lower :: "pystr \<Rightarrow> pystr"
  normalize_nfkd :: "pystr \<Rightarrow> pystr"

text \<open>\<open>encode('ascii', errors='ignore')\<close> drops the code points from 128 on.\<close>

definition encode_ascii_ignore :: "pystr \<Rightarrow> 8 word list" where
  "encode_ascii_ignore s = map of_nat (filter (\<lambda>c. c < 128) s)"

text \<open>
  \<open>decode('utf-8')\<close> is strict: a byte sequence that is not well-formed UTF-8
  (a stray continuation byte, an overlong form, a surrogate, a value above U+10FFFF, a
  truncated sequence) raises \<open>UnicodeDecodeError\<close>.
\<close>

definition cont :: "8 word \<Rightarrow> bool" where
  "cont b = (0x80 \<le> b \<and> b \<le> 0xBF)"

definition payload :: "8 word \<Rightarrow> nat" where
  "payload b = unat b mod 64"

definition second_of_three :: "8 word \<Rightarrow> 8 word \<Rightarrow> bool" where
  "second_of_three b c =
     (if b = 0xE0 then 0xA0 \<le> c \<and> c \<le> 0xBF
      else if b = 0xED then 0x80 \<le> c \<and> c \<le> 0x9F
      else cont c)"

definition second_of_four :: "8 word \<Rightarrow> 8 word \<Rightarrow> bool" where
  "second_of_four b c =
     (if b = 0xF0 then 0x90 \<le> c \<and> c \<le> 0xBF
      else if b = 0xF4 then 0x80 \<le> c \<and> c \<le> 0x8F
      else cont c)"

fun decode_utf8 :: "8 word list \<Rightarrow> py_error + pystr" where
  "decode_utf8 [] = Inr []"
| "decode_utf8 (b # bs) =
     (if b < 0x80 then
        and_then (decode_utf8 bs) (\<lambda>r. Inr (unat b # r))
      else if 0xC2 \<le> b \<and> b \<le> 0xDF then
        (case bs of
           c1 # r1 \<Rightarrow>
             if cont c1
             then and_then (decode_utf8 r1) (\<lambda>r.
                    Inr (((unat b mod 32) * 64 + payload c1) # r))
             else Inl UnicodeDecodeError
         | _ \<Rightarrow> Inl UnicodeDecodeError)
      else if 0xE0 \<le> b \<and> b \<le> 0xEF then
        (case bs of
           c1 # c2 # r2 \<Rightarrow>
             if second_of_three b c1 \<and> cont c2
             then and_then (decode_utf8 r2) (\<lambda>r.
                    Inr (((unat b mod 16) * 4096 + payload c1 * 64 + payload c2) # r))
             else Inl UnicodeDecodeError
         | _ \<Rightarrow> Inl UnicodeDecodeError)
      else if 0xF0 \<le> b \<and> b \<le> 0xF4 then
        (case bs of
           c1 # c2 # c3 # r3 \<Rightarrow>
             if second_of_four b c1 \<and> cont c2 \<and> cont c3
             then and_then (decode_utf8 r3) (\<lambda>r.
                    Inr (((unat b mod 8) * 262144 + payload c1 * 4096 + payload c2 * 64
                          + payload c3) # r))
             else Inl UnicodeDecodeError
         | _ \<Rightarrow> Inl UnicodeDecodeError)
      else Inl UnicodeDecodeError)"

text \<open>
  The chain of lines 52 to 55 works on the whole index, one vectorised step after the
  other; \<open>decode_all\<close> is the last step, which stops at the first name it cannot
  decode.
\<close>

fun decode_all :: "8 word list list \<Rightarrow> py_error + pystr list" where
  "decode_all [] = Inr []"
| "decode_all (bs # rest) =
     and_then (decode_utf8 bs) (\<lambda>s.
     and_then (decode_all rest) (\<lambda>ss. Inr (s # ss)))"

definition clean_labels :: "unicode_db \<Rightarrow> pystr list \<Rightarrow> py_error + pystr list" where
  "clean_labels db names =
     decode_all (map encode_ascii_ignore (map (normalize_nfkd db) (map (str_lower db) names)))"

text \<open>
  \<open>df.columns = cleaned_columns\<close> relabels the columns by position. The three
  \<open>print\<close>s of the function are constant text and are left out.
\<close>

definition clean_column_names :: "unicode_db \<Rightarrow> dataframe \<Rightarrow> py_error + dataframe" where
  "clean_column_names db df =
     and_then (clean_labels db (df_columns df)) (\<lambda>cleaned_columns.
       Inr (zip cleaned_columns (map snd df)))"

text \<open>
  To run the normalizer on a concrete name, the entries of the Unicode character database
  for a few code points: the case mapping and the decomposition of Basic Latin (its
  letters have the lower case 32 further and no decomposition), of the accented letters
  of Spanish, and of U+2122 TRADE MARK SIGN (no case mapping; compatibility decomposition
  \<open><super> 0054 004D\<close>). Other code points are passed through, which is what
  Python does only for those the database gives no mapping, so \<open>sample_db\<close> stands
  for Python on names over the code points listed and on no others.
\<close>

definition lower_cp :: "codepoint \<Rightarrow> pystr" where
  "lower_cp c =
     (if 65 \<le> c \<and> c \<le> 90 then [c + 32]
      else if c \<in> set [193, 201, 205, 209, 211, 218, 220] then [c + 32]
      else [c])"

definition nfkd_cp :: "codepoint \<Rightarrow> pystr" where
  "nfkd_cp c =
     (if c = 193 then [65, 769] else if c = 225 then [97, 769]
      else if c = 201 then [69, 769] else if c = 233 then [101, 769]
      else if c = 205 then [73, 769] else if c = 237 then [105, 769]
      else if c = 209 then [78, 771] else if c = 241 then [110, 771]
      else if c = 211 then [79, 769] else if c = 243 then [111, 769]
      else if c = 218 then [85, 769] else if c = 250 then [117, 769]
      else if c = 220 then [85, 776] else if c = 252 then [117, 776]
      else if c = 8482 then [84, 77]
      else [c])"

definition sample_db :: unicode_db where
  "sample_db =
     \<lparr>str_lower = (\<lambda>s. concat (map lower_cp s)),
      normalize_nfkd = (\<lambda>s. concat (map nfkd_cp s))\<rparr>"

text \<open>An ASCII name is lowercase when it holds none of the letters A to Z.\<close>

definition upper_ascii :: "pystr \<Rightarrow> pystr" where
  "upper_ascii s = filter (\<lambda>c. 65 \<le> c \<and> c \<le> 90) s"

section \<open>Properties of the NPS calculator\<close>

lemma mask_sum_map: "mask_sum (map P xs) = length (filter P xs)"
  by (induction xs) (simp_all add: mask_sum_def)

lemma dropna_append: "dropna (xs @ ys) = dropna xs @ dropna ys"
  by (induction xs rule: dropna.induct) simp_all

lemma getitem_in_columns: "getitem df var = Inr sel \<Longrightarrow> var \<in> set (df_columns df)"
proof -
  assume a: "getitem df var = Inr sel"
  have "filter (\<lambda>c. fst c = var) df \<noteq> []"
    using a by (cases "filter (\<lambda>c. fst c = var) df") (simp_all add: getitem_def)
  then obtain c where "c \<in> set df" "fst c = var"
    by (auto simp: filter_empty_conv)
  then show ?thesis by (auto simp: df_columns_def)
qed

lemma detractor_only: "is_detractor v \<Longrightarrow> \<not> is_passive v \<and> \<not> is_promoter v"
  by (cases v) (simp_all add: is_detractor_def is_passive_def is_promoter_def)

lemma promoter_only: "is_promoter v \<Longrightarrow> \<not> is_passive v \<and> \<not> is_detractor v"
  by (cases v) (simp_all add: is_detractor_def is_passive_def is_promoter_def)

lemma passive_only: "is_passive v \<Longrightarrow> \<not> is_promoter v \<and> \<not> is_detractor v"
  by (cases v) (simp_all add: is_detractor_def is_passive_def is_promoter_def)

lemma nps_report_nonempty:
  "xs \<noteq> [] \<Longrightarrow>
   nps_report xs =
     Inr (report_lines (length xs) (length (filter is_promoter xs))
            (length (filter is_passive xs)) (length (filter is_detractor xs)))"
  by (simp add: nps_report_def Let_def mask_sum_map true_divide_def and_then_def report_lines_def)

lemma nps_report_empty: "nps_report [] = Inr [Nps_header, No_valid_scores]"
  by (simp add: nps_report_def)

lemma calculate_nps_series:
  assumes "getitem df (py ''nps'') = Inr (Series col)"
  shows "calculate_nps parse df = nps_report (valid_scores parse col)"
  using assms getitem_in_columns[OF assms]
  by (simp add: calculate_nps_def and_then_def valid_scores_def)

lemma valid_scores_append:
  "valid_scores parse (xs @ ys) = valid_scores parse xs @ valid_scores parse ys"
  by (simp add: valid_scores_def dropna_append)

lemma valid_scores_Cons_Some:
  "coerce parse c = Some v \<Longrightarrow> valid_scores parse (c # ys) = v # valid_scores parse ys"
  by (simp add: valid_scores_def)

lemma valid_scores_Cons_None:
  "coerce parse c = None \<Longrightarrow> valid_scores parse (c # ys) = valid_scores parse ys"
  by (simp add: valid_scores_def)

lemma bands_disjoint: "length (bands_of v) \<le> 1"
proof (cases "is_detractor v")
  case True
  then show ?thesis using detractor_only[of v] by (simp add: bands_of_def)
next
  case False
  then show ?thesis using passive_only[of v] by (simp add: bands_of_def)
qed

lemma bands_of_Fin:
  "bands_of (Fin x) =
     (if x \<le> 6 then [Detractor] else if x < 7 then [] else if x \<le> 8 then [Passive]
      else if x < 9 then [] else [Promoter])"
proof -
  have a: "is_detractor (Fin x) = (x \<le> 6)" by (simp add: is_detractor_def)
  have b: "is_passive (Fin x) = (7 \<le> x \<and> x \<le> 8)" by (simp add: is_passive_def)
  have c: "is_promoter (Fin x) = (9 \<le> x)" by (simp add: is_promoter_def)
  show ?thesis unfolding bands_of_def a b c by auto
qed

text \<open>
  C1 (as amended). The three bands are pairwise disjoint for every numeric value: no
  value is in more than one. A value from 0 to 10 is in exactly one band when it lies in
  one of the ranges 0 to 6 (Detractor), 7 to 8 (Passive), 9 to 10 (Promoter), and in no
  band when it lies strictly between 6 and 7 or strictly between 8 and 9.
\<close>

theorem nps_bands_partition:
  "length (bands_of v) \<le> 1 \<and>
   (0 \<le> x \<and> x \<le> 10 \<longrightarrow>
      bands_of (Fin x) =
        (if x \<le> 6 then [Detractor] else if x < 7 then [] else if x \<le> 8 then [Passive]
         else if x < 9 then [] else [Promoter]))"
  using bands_disjoint[of v] bands_of_Fin[of x] by blast

theorem nps_bands_partition_witness:
  "length (bands_of PosInf) \<le> 1 \<and> (0::rat) \<le> 15 / 2 \<and> (15 / 2 :: rat) \<le> 10 \<and>
   bands_of (Fin (15 / 2)) = [Passive] \<and>
   (0::rat) \<le> 35 / 4 \<and> (35 / 4 :: rat) \<le> 10 \<and> bands_of (Fin (35 / 4)) = []"
  using nps_bands_partition [of PosInf "15 / 2"] nps_bands_partition [of PosInf "35 / 4"] by simp

text \<open>
  C1 as stated fails: 6.5 lies in the range from 0 to 10 and is in none of the three
  bands. A field holding only 6.5 has one respondent and a count of zero in every band.
\<close>

theorem nps_bands_gap:
  "num_le (Fin 0) (Fin (13 / 2)) \<and> num_le (Fin (13 / 2)) (Fin 10) \<and>
   bands_of (Fin (13 / 2)) = [] \<and>
   calculate_nps (\<lambda>s. None) [(py ''nps'', [Number (Fin (13 / 2))])] =
     Inr [Nps_header, Total_respondents 1, Promoters_line 0 0, Passives_line 0 0,
          Detractors_line 0 0, Final_score 0]"
  by (simp add: bands_of_def is_detractor_def is_passive_def is_promoter_def
      calculate_nps_def py_def df_columns_def getitem_def and_then_def
      nps_report_def mask_sum_def true_divide_def)

text \<open>
  C5. On the field 9, 9, 7, 3, 0 the calculator reports 5 respondents, 2 promoters,
  1 passive, 2 detractors and the score 100 * (2/5) - 100 * (2/5), which is 0.
\<close>

theorem nps_sample:
  "calculate_nps parse [(py ''nps'', map (\<lambda>k. Number (Fin k)) [9, 9, 7, 3, 0])] =
     Inr [Nps_header, Total_respondents 5, Promoters_line 2 (100 * (2 / 5)),
          Passives_line 1 20, Detractors_line 2 (100 * (2 / 5)),
          Final_score (100 * (2 / 5) - 100 * (2 / 5))] \<and>
   (100 * (2 / 5) - 100 * (2 / 5) :: rat) = 0"
  by (simp add: calculate_nps_def py_def df_columns_def getitem_def and_then_def
      nps_report_def mask_sum_def is_promoter_def is_passive_def is_detractor_def
      true_divide_def)


text \<open>
  C2. When the field has at least one value that coerces to a number, the calculator
  ends its report with the score 100 * (promoters / T) - 100 * (detractors / T), where T
  is the number of such values, and the score lies between -100 and 100.
\<close>

theorem nps_score_formula:
  assumes "getitem df (py ''nps'') = Inr (Series col)"
    and "valid_scores parse col \<noteq> []"
  shows "\<exists>out score.
           calculate_nps parse df = Inr out \<and> last out = Final_score score \<and>
           score = 100 * (of_nat (length (filter is_promoter (valid_scores parse col)))
                            / of_nat (length (valid_scores parse col)))
                 - 100 * (of_nat (length (filter is_detractor (valid_scores parse col)))
                            / of_nat (length (valid_scores parse col))) \<and>
           - 100 \<le> score \<and> score \<le> 100"
proof -
  define xs where "xs = valid_scores parse col"
  define t where "t = (of_nat (length xs) :: rat)"
  define p where "p = (of_nat (length (filter is_promoter xs)) :: rat)"
  define d where "d = (of_nat (length (filter is_detractor xs)) :: rat)"
  have ne: "xs \<noteq> []" using assms(2) by (simp add: xs_def)
  have t: "0 < t" using ne by (simp add: t_def)
  have pt: "p \<le> t" unfolding p_def t_def by (simp only: of_nat_le_iff length_filter_le)
  have dt: "d \<le> t" unfolding d_def t_def by (simp only: of_nat_le_iff length_filter_le)
  have p0: "0 \<le> p" by (simp add: p_def)
  have d0: "0 \<le> d" by (simp add: d_def)
  have p: "0 \<le> p / t" "p / t \<le> 1" using t pt p0 by (simp_all add: divide_le_eq_1)
  have d: "0 \<le> d / t" "d / t \<le> 1" using t dt d0 by (simp_all add: divide_le_eq_1)
  have out: "calculate_nps parse df =
      Inr (report_lines (length xs) (length (filter is_promoter xs))
            (length (filter is_passive xs)) (length (filter is_detractor xs)))"
    using calculate_nps_series[OF assms(1), of parse] nps_report_nonempty[OF ne]
    by (simp add: xs_def)
  have l: "last (report_lines (length xs) (length (filter is_promoter xs))
            (length (filter is_passive xs)) (length (filter is_detractor xs)))
        = Final_score (100 * (p / t) - 100 * (d / t))"
    by (simp add: report_lines_def p_def t_def d_def mult.commute)
  have lo: "- 100 \<le> 100 * (p / t) - 100 * (d / t)" using p d by linarith
  have hi: "100 * (p / t) - 100 * (d / t) \<le> 100" using p d by linarith
  show ?thesis
    apply (rule exI[of _ "report_lines (length xs) (length (filter is_promoter xs))
            (length (filter is_passive xs)) (length (filter is_detractor xs))"])
    apply (rule exI[of _ "100 * (p / t) - 100 * (d / t)"])
    using out l lo hi by (simp add: xs_def p_def t_def d_def)
qed

theorem nps_score_formula_witness:
  "getitem [(py ''nps'', [Number (Fin 10), Text (py ''x''), Number (Fin 3), Number (Fin 8)])]
     (py ''nps'') = Inr (Series [Number (Fin 10), Text (py ''x''), Number (Fin 3), Number (Fin 8)]) \<and>
   valid_scores (\<lambda>s. None) [Number (Fin 10), Text (py ''x''), Number (Fin 3), Number (Fin 8)] \<noteq> [] \<and>
   (\<exists>out score.
      calculate_nps (\<lambda>s. None)
        [(py ''nps'', [Number (Fin 10), Text (py ''x''), Number (Fin 3), Number (Fin 8)])] = Inr out \<and>
      last out = Final_score score \<and> score = 100 * (1 / 3) - 100 * (1 / 3) \<and>
      - 100 \<le> score \<and> score \<le> 100)"
proof -
  let ?col = "[Number (Fin 10), Text (py ''x''), Number (Fin 3), Number (Fin 8)]"
  have h1: "getitem [(py ''nps'', ?col)] (py ''nps'') = Inr (Series ?col)"
    by (simp add: getitem_def)
  have v: "valid_scores (\<lambda>s. None) ?col = [Fin 10, Fin 3, Fin 8]"
    by (simp add: valid_scores_def)
  have h2: "valid_scores (\<lambda>s. None) ?col \<noteq> []"
    by (simp add: v)
  have f: "filter is_promoter [Fin 10, Fin 3, Fin 8] = [Fin 10]"
          "filter is_detractor [Fin 10, Fin 3, Fin 8] = [Fin 3]"
    by (simp_all add: is_promoter_def is_detractor_def)
  show ?thesis
    using nps_score_formula [OF h1 h2] h1 h2 unfolding v f by simp
qed

text \<open>
  C4. No numeric value is left out for being outside the range from 0 to 10. A value of
  the field that is at most 6, negative or not, adds one to the detractors and one to the
  total; a value that is at least 9, above 10 or not, adds one to the promoters and one to
  the total. The report is the one of the remaining values with these counts raised.
\<close>

theorem out_of_range_counted:
  assumes "getitem df (py ''nps'') = Inr (Series (pre @ c # post))"
    and "coerce parse c = Some v"
  shows "(num_le v (Fin 6) \<longrightarrow>
            calculate_nps parse df =
              Inr (report_lines
                     (Suc (length (valid_scores parse (pre @ post))))
                     (length (filter is_promoter (valid_scores parse (pre @ post))))
                     (length (filter is_passive (valid_scores parse (pre @ post))))
                     (Suc (length (filter is_detractor (valid_scores parse (pre @ post))))))) \<and>
         (num_le (Fin 9) v \<longrightarrow>
            calculate_nps parse df =
              Inr (report_lines
                     (Suc (length (valid_scores parse (pre @ post))))
                     (Suc (length (filter is_promoter (valid_scores parse (pre @ post)))))
                     (length (filter is_passive (valid_scores parse (pre @ post))))
                     (length (filter is_detractor (valid_scores parse (pre @ post))))))"
proof -
  define vp where "vp = valid_scores parse pre"
  define vq where "vq = valid_scores parse post"
  have all: "valid_scores parse (pre @ c # post) = vp @ v # vq"
    by (simp add: valid_scores_append valid_scores_Cons_Some[OF assms(2)] vp_def vq_def)
  have rest: "valid_scores parse (pre @ post) = vp @ vq"
    by (simp add: valid_scores_append vp_def vq_def)
  have ne: "vp @ v # vq \<noteq> []" by simp
  have out: "calculate_nps parse df =
      Inr (report_lines (length (vp @ v # vq)) (length (filter is_promoter (vp @ v # vq)))
            (length (filter is_passive (vp @ v # vq))) (length (filter is_detractor (vp @ v # vq))))"
    using calculate_nps_series[OF assms(1), of parse] nps_report_nonempty[OF ne]
    by (simp only: all)
  have low: "calculate_nps parse df =
      Inr (report_lines (Suc (length (vp @ vq))) (length (filter is_promoter (vp @ vq)))
            (length (filter is_passive (vp @ vq))) (Suc (length (filter is_detractor (vp @ vq)))))"
    if "num_le v (Fin 6)"
  proof -
    have "is_detractor v" using that by (simp add: is_detractor_def)
    then show ?thesis using detractor_only[of v] by (simp add: out)
  qed
  have high: "calculate_nps parse df =
      Inr (report_lines (Suc (length (vp @ vq))) (Suc (length (filter is_promoter (vp @ vq))))
            (length (filter is_passive (vp @ vq))) (length (filter is_detractor (vp @ vq))))"
    if "num_le (Fin 9) v"
  proof -
    have "is_promoter v" using that by (simp add: is_promoter_def)
    then show ?thesis using promoter_only[of v] by (simp add: out)
  qed
  show ?thesis unfolding rest using low high by blast
qed

theorem out_of_range_counted_witness:
  "getitem [(py ''nps'', [Number (Fin 7)] @ Number (Fin (- 5)) # [])] (py ''nps'') =
     Inr (Series ([Number (Fin 7)] @ Number (Fin (- 5)) # [])) \<and>
   coerce (\<lambda>s. None) (Number (Fin (- 5))) = Some (Fin (- 5)) \<and>
   num_le (Fin (- 5)) (Fin 6) \<and>
   calculate_nps (\<lambda>s. None) [(py ''nps'', [Number (Fin 7)] @ Number (Fin (- 5)) # [])] =
     Inr (report_lines 2 0 1 1) \<and>
   getitem [(py ''nps'', [Number (Fin 7)] @ Number (Fin 11) # [])] (py ''nps'') =
     Inr (Series ([Number (Fin 7)] @ Number (Fin 11) # [])) \<and>
   coerce (\<lambda>s. None) (Number (Fin 11)) = Some (Fin 11) \<and>
   num_le (Fin 9) (Fin 11) \<and>
   calculate_nps (\<lambda>s. None) [(py ''nps'', [Number (Fin 7)] @ Number (Fin 11) # [])] =
     Inr (report_lines 2 1 1 0)"
proof -
  have g1: "getitem [(py ''nps'', [Number (Fin 7)] @ Number (Fin (- 5)) # [])] (py ''nps'') =
     Inr (Series ([Number (Fin 7)] @ Number (Fin (- 5)) # []))"
    by (simp add: getitem_def)
  have c1: "coerce (\<lambda>s. None) (Number (Fin (- 5))) = Some (Fin (- 5))" by simp
  have g2: "getitem [(py ''nps'', [Number (Fin 7)] @ Number (Fin 11) # [])] (py ''nps'') =
     Inr (Series ([Number (Fin 7)] @ Number (Fin 11) # []))"
    by (simp add: getitem_def)
  have c2: "coerce (\<lambda>s. None) (Number (Fin 11)) = Some (Fin 11)" by simp
  have v: "valid_scores (\<lambda>s. None) ([Number (Fin 7)] @ []) = [Fin 7]"
    by (simp add: valid_scores_def)
  have f: "filter is_promoter [Fin 7] = []" "filter is_passive [Fin 7] = [Fin 7]"
          "filter is_detractor [Fin 7] = []"
    by (simp_all add: is_promoter_def is_passive_def is_detractor_def)
  have r1: "calculate_nps (\<lambda>s. None) [(py ''nps'', [Number (Fin 7)] @ Number (Fin (- 5)) # [])] =
     Inr (report_lines 2 0 1 1)"
    using out_of_range_counted [OF g1 c1] unfolding v f by (simp add: numeral_2_eq_2)
  have r2: "calculate_nps (\<lambda>s. None) [(py ''nps'', [Number (Fin 7)] @ Number (Fin 11) # [])] =
     Inr (report_lines 2 1 1 0)"
    using out_of_range_counted [OF g2 c2] unfolding v f by (simp add: numeral_2_eq_2)
  show ?thesis using g1 c1 g2 c2 r1 r2 by simp
qed

lemma nps_report_total: "\<exists>out. nps_report xs = Inr out"
  by (cases "xs = []") (simp_all add: nps_report_nonempty nps_report_empty)

lemma calculate_nps_no_zero_division: "calculate_nps parse df \<noteq> Inl ZeroDivisionError"
proof (cases "py ''nps'' \<in> set (df_columns df)")
  case False
  then show ?thesis by (simp add: calculate_nps_def)
next
  case True
  show ?thesis
  proof (cases "getitem df (py ''nps'')")
    case (Inl e)
    have "e = KeyError"
      using Inl by (cases "filter (\<lambda>c. fst c = py ''nps'') df" rule: remdups_adj.cases)
        (simp_all add: getitem_def)
    with Inl True show ?thesis by (simp add: calculate_nps_def and_then_def)
  next
    case (Inr sel)
    show ?thesis
    proof (cases sel)
      case (Series col)
      obtain out where "nps_report (valid_scores parse col) = Inr out"
        using nps_report_total by blast
      with Inr Series show ?thesis
        using calculate_nps_series[of df col parse] by simp
    next
      case (Frame cols)
      with Inr True show ?thesis by (simp add: calculate_nps_def and_then_def)
    qed
  qed
qed

text \<open>
  C6. When no value of the field coerces to a number, the calculator prints the notice
  that there are no valid scores and stops: the output holds no score. No input makes it
  divide by zero.
\<close>

theorem no_data_no_score:
  "calculate_nps parse df \<noteq> Inl ZeroDivisionError \<and>
   (getitem df (py ''nps'') = Inr (Series col) \<and> valid_scores parse col = [] \<longrightarrow>
      calculate_nps parse df = Inr [Nps_header, No_valid_scores])"
  using calculate_nps_no_zero_division[of parse df] calculate_nps_series[of df col parse]
  by (auto simp: nps_report_empty)

theorem no_data_no_score_witness:
  "calculate_nps (\<lambda>s. None) [(py ''nps'', [Text (py ''n/a''), Missing])] \<noteq> Inl ZeroDivisionError \<and>
   getitem [(py ''nps'', [Text (py ''n/a''), Missing])] (py ''nps'') =
     Inr (Series [Text (py ''n/a''), Missing]) \<and>
   valid_scores (\<lambda>s. None) [Text (py ''n/a''), Missing] = [] \<and>
   calculate_nps (\<lambda>s. None) [(py ''nps'', [Text (py ''n/a''), Missing])] =
     Inr [Nps_header, No_valid_scores]"
proof -
  have g: "getitem [(py ''nps'', [Text (py ''n/a''), Missing])] (py ''nps'') =
     Inr (Series [Text (py ''n/a''), Missing])"
    by (simp add: getitem_def)
  have v: "valid_scores (\<lambda>s. None) [Text (py ''n/a''), Missing] = []"
    by (simp add: valid_scores_def)
  show ?thesis
    using no_data_no_score [of "\<lambda>s. None" "[(py ''nps'', [Text (py ''n/a''), Missing])]"
        "[Text (py ''n/a''), Missing]"] g v by simp
qed

lemma valid_scores_filter:
  "valid_scores parse (filter (\<lambda>c. coerce parse c \<noteq> None) col) = valid_scores parse col"
proof (induction col)
  case Nil
  then show ?case by simp
next
  case (Cons c col)
  show ?case
  proof (cases "coerce parse c")
    case None
    then show ?thesis using Cons by (simp add: valid_scores_Cons_None)
  next
    case (Some v)
    then show ?thesis using Cons by (simp add: valid_scores_Cons_Some)
  qed
qed

lemma getitem_single: "getitem [(var, col)] var = Inr (Series col)"
  by (simp add: getitem_def)

text \<open>
  C7. The values of the field that fail numeric coercion raise no error and leave no
  trace: the calculator returns normally, and what it prints is what it prints on the
  field with those values removed, so they are in no band count and not in the total.
\<close>

theorem coercion_failures_excluded:
  assumes "getitem df (py ''nps'') = Inr (Series col)"
  shows "\<exists>out. calculate_nps parse df = Inr out \<and>
               calculate_nps parse [(py ''nps'', filter (\<lambda>c. coerce parse c \<noteq> None) col)] = Inr out"
proof -
  obtain out where out: "nps_report (valid_scores parse col) = Inr out"
    using nps_report_total by blast
  have a: "calculate_nps parse df = Inr out"
    using calculate_nps_series[OF assms, of parse] out by simp
  have b: "calculate_nps parse [(py ''nps'', filter (\<lambda>c. coerce parse c \<noteq> None) col)] = Inr out"
    by (simp only: calculate_nps_series[OF getitem_single] valid_scores_filter out)
  show ?thesis using a b by blast
qed

theorem coercion_failures_excluded_witness:
  "getitem [(py ''nps'', [Number (Fin 9), Text (py ''x''), Missing, Number (Fin 2)])] (py ''nps'') =
     Inr (Series [Number (Fin 9), Text (py ''x''), Missing, Number (Fin 2)]) \<and>
   filter (\<lambda>c. coerce (\<lambda>s. None) c \<noteq> None)
     [Number (Fin 9), Text (py ''x''), Missing, Number (Fin 2)] = [Number (Fin 9), Number (Fin 2)] \<and>
   (\<exists>out. calculate_nps (\<lambda>s. None)
            [(py ''nps'', [Number (Fin 9), Text (py ''x''), Missing, Number (Fin 2)])] = Inr out \<and>
          calculate_nps (\<lambda>s. None) [(py ''nps'', [Number (Fin 9), Number (Fin 2)])] = Inr out)"
proof -
  let ?col = "[Number (Fin 9), Text (py ''x''), Missing, Number (Fin 2)]"
  have g: "getitem [(py ''nps'', ?col)] (py ''nps'') = Inr (Series ?col)"
    by (simp add: getitem_def)
  have f: "filter (\<lambda>c. coerce (\<lambda>s. None) c \<noteq> None) ?col = [Number (Fin 9), Number (Fin 2)]"
    by simp
  show ?thesis
    using coercion_failures_excluded [OF g, of "\<lambda>s. None"] g unfolding f by simp
qed


section \<open>Properties of the column name normalizer\<close>

lemma ascii_byte:
  assumes "c < 128"
  shows "(of_nat c :: 8 word) < 0x80" and "unat (of_nat c :: 8 word) = c"
proof -
  show u: "unat (of_nat c :: 8 word) = c"
    using assms by (simp add: unat_of_nat)
  show "(of_nat c :: 8 word) < 0x80"
    using assms by (simp add: word_less_nat_alt u)
qed

lemma decode_ascii:
  "list_all (\<lambda>c. c < 128) xs \<Longrightarrow> decode_utf8 (map of_nat xs) = Inr xs"
proof (induction xs)
  case Nil
  then show ?case by simp
next
  case (Cons c xs)
  then have c: "c < 128" and xs: "decode_utf8 (map of_nat xs) = Inr xs" by simp_all
  show ?case
    using ascii_byte[OF c] xs by (simp add: and_then_def)
qed

lemma decode_encode:
  "decode_utf8 (encode_ascii_ignore s) = Inr (filter (\<lambda>c. c < 128) s)"
  unfolding encode_ascii_ignore_def
  by (rule decode_ascii) (simp add: list_all_iff)

lemma decode_all_encoded:
  "decode_all (map encode_ascii_ignore ss) = Inr (map (filter (\<lambda>c. c < 128)) ss)"
  by (induction ss) (simp_all add: decode_encode and_then_def)

lemma clean_labels_eq:
  "clean_labels db names =
     Inr (map (\<lambda>s. filter (\<lambda>c. c < 128) (normalize_nfkd db (str_lower db s))) names)"
  unfolding clean_labels_def decode_all_encoded by (simp add: comp_def)

lemma clean_column_names_eq:
  "clean_column_names db df =
     Inr (map (\<lambda>col. (filter (\<lambda>c. c < 128) (normalize_nfkd db (str_lower db (fst col))), snd col)) df)"
  by (simp add: clean_column_names_def clean_labels_eq and_then_def df_columns_def zip_map_map
      zip_same_conv_map comp_def)




text \<open>
  Whatever the Unicode database, the normalizer never fails, keeps the number and the
  order of the names, and returns names of ASCII code points only: each is the ASCII part
  of the decomposed lower-cased name.
\<close>

lemma clean_labels_shape:
  "\<exists>out. clean_labels db names = Inr out \<and> length out = length names \<and>
         list_all (list_all (\<lambda>c. c < 128)) out"
  by (simp add: clean_labels_eq list_all_iff)

lemma py_marcaTM: "py ''marcaTM'' = [109, 97, 114, 99, 97, 84, 77]"
  by (simp add: py_def)

lemma py_marcatm: "py ''marcatm'' = [109, 97, 114, 99, 97, 116, 109]"
  by (simp add: py_def)

lemma py_TM: "py ''TM'' = [84, 77]"
  by (simp add: py_def)

lemma py_tm: "py ''tm'' = [116, 109]"
  by (simp add: py_def)

lemma lower_marca: "str_lower sample_db [77, 97, 114, 99, 97, 8482] = [109, 97, 114, 99, 97, 8482]"
  by (simp add: sample_db_def lower_cp_def)

lemma nfkd_marca:
  "normalize_nfkd sample_db [109, 97, 114, 99, 97, 8482] = [109, 97, 114, 99, 97, 84, 77]"
  by (simp add: sample_db_def nfkd_cp_def)

lemma lower_marcaTM:
  "str_lower sample_db [109, 97, 114, 99, 97, 84, 77] = [109, 97, 114, 99, 97, 116, 109]"
  by (simp add: sample_db_def lower_cp_def)

lemma lower_trade_mark: "str_lower sample_db [8482] = [8482]"
  by (simp add: sample_db_def lower_cp_def)

lemma nfkd_trade_mark: "normalize_nfkd sample_db [8482] = [84, 77]"
  by (simp add: sample_db_def nfkd_cp_def)

lemma lower_TM: "str_lower sample_db [84, 77] = [116, 109]"
  by (simp add: sample_db_def lower_cp_def)

lemma nfkd_tm: "normalize_nfkd sample_db [116, 109] = [116, 109]"
  by (simp add: sample_db_def nfkd_cp_def)

text \<open>
  C3. The claim that every cleaned name is lowercase fails on the code: the name
  \<open>Marca\<close> followed by U+2122 is cleaned to \<open>marcaTM\<close>. The sign has no
  lower case, so \<open>str.lower\<close> leaves it, and the decomposition that follows turns it
  into the capital letters T and M; lower-casing the result would still change it.
\<close>

theorem trade_mark_not_lowercase:
  "clean_column_names sample_db [([77, 97, 114, 99, 97, 8482], [])] = Inr [(py ''marcaTM'', [])] \<and>
   upper_ascii (py ''marcaTM'') = py ''TM'' \<and>
   str_lower sample_db (py ''marcaTM'') = py ''marcatm''"
proof -
  have "clean_column_names sample_db [([77, 97, 114, 99, 97, 8482], [])] =
          Inr [([109, 97, 114, 99, 97, 84, 77], [])]"
    by (simp add: clean_column_names_eq lower_marca nfkd_marca)
  moreover have "upper_ascii [109, 97, 114, 99, 97, 84, 77] = [84, 77]"
    by (simp add: upper_ascii_def)
  ultimately show ?thesis
    by (simp only: py_marcaTM py_marcatm py_TM lower_marcaTM simp_thms)
qed

text \<open>
  C10. Cleaning is not idempotent on the code: the column named U+2122 is renamed
  \<open>TM\<close>, and cleaning again renames it \<open>tm\<close>.
\<close>

theorem cleaning_twice_differs:
  "clean_column_names sample_db [([8482], [])] = Inr [(py ''TM'', [])] \<and>
   clean_column_names sample_db [(py ''TM'', [])] = Inr [(py ''tm'', [])] \<and>
   and_then (clean_column_names sample_db [([8482], [])]) (clean_column_names sample_db)
     \<noteq> clean_column_names sample_db [([8482], [])]"
proof -
  have a: "clean_column_names sample_db [([8482], [])] = Inr [([84, 77], [])]"
    by (simp add: clean_column_names_eq lower_trade_mark nfkd_trade_mark)
  have b: "clean_column_names sample_db [([84, 77], [])] = Inr [([116, 109], [])]"
    by (simp add: clean_column_names_eq lower_TM nfkd_tm)
  have c: "and_then (Inr [([84, 77], [])]) (clean_column_names sample_db) = Inr [([116, 109], [])]"
    by (simp add: b and_then_def)
  show ?thesis
    unfolding py_TM py_tm a b c by simp
qed


section \<open>Properties of the demographic tabulator\<close>

subsection \<open>Counting\<close>

lemma count_key_sum: "sum_list (map snd (count_key k t)) = Suc (sum_list (map snd t))"
  by (induction k t rule: count_key.induct) simp_all

lemma fold_count_key_sum:
  "sum_list (map snd (fold count_key ks acc)) = length ks + sum_list (map snd acc)"
  by (induction ks arbitrary: acc) (simp_all add: count_key_sum)

lemma value_count_sum: "sum_list (map snd (value_count ks)) = length ks"
  by (simp add: value_count_def fold_count_key_sum)

lemma count_key_keys: "fst ` set (count_key k t) = insert k (fst ` set t)"
  by (induction k t rule: count_key.induct) auto

lemma count_key_distinct: "distinct (map fst t) \<Longrightarrow> distinct (map fst (count_key k t))"
  by (induction k t rule: count_key.induct) (auto simp: count_key_keys)

lemma count_key_map_of:
  "map_of (count_key k t) k' =
     (if k' = k then Some (case map_of t k of None \<Rightarrow> 1 | Some n \<Rightarrow> Suc n) else map_of t k')"
  by (induction k t rule: count_key.induct) auto

lemma fold_count_key_distinct:
  "distinct (map fst acc) \<Longrightarrow> distinct (map fst (fold count_key ks acc))"
  by (induction ks arbitrary: acc) (simp_all add: count_key_distinct)

lemma fold_count_key_keys:
  "fst ` set (fold count_key ks acc) = set ks \<union> fst ` set acc"
  by (induction ks arbitrary: acc) (simp_all add: count_key_keys)

lemma fold_count_key_map_of:
  "map_of (fold count_key ks acc) k =
     (if k \<in> set ks
      then Some (count_list ks k + (case map_of acc k of None \<Rightarrow> 0 | Some n \<Rightarrow> n))
      else map_of acc k)"
proof (induction ks arbitrary: acc)
  case Nil
  then show ?case by simp
next
  case (Cons a ks)
  show ?case
    by (simp add: Cons.IH count_key_map_of split: option.split)
qed

lemma value_count_distinct: "distinct (map fst (value_count ks))"
  by (simp add: value_count_def fold_count_key_distinct)

lemma value_count_keys: "fst ` set (value_count ks) = set ks"
  by (simp add: value_count_def fold_count_key_keys)

lemma value_count_entry:
  assumes "kc \<in> set (value_count ks)"
  shows "snd kc = count_list ks (fst kc)"
proof -
  have "(fst kc, snd kc) \<in> set (value_count ks)"
    using assms by simp
  then have "map_of (value_count ks) (fst kc) = Some (snd kc)"
    by (simp add: value_count_distinct)
  then show ?thesis
    by (simp add: value_count_def fold_count_key_map_of split: if_splits)
qed

lemma sorted_counts_mset: "mset (sorted_counts ks) = mset (value_count ks)"
  by (simp add: sorted_counts_def)

lemma sorted_counts_set: "set (sorted_counts ks) = set (value_count ks)"
  by (simp add: sorted_counts_def)

lemma sorted_counts_sum: "sum_list (map snd (sorted_counts ks)) = length ks"
proof -
  have "mset (map snd (sorted_counts ks)) = mset (map snd (value_count ks))"
    by (simp add: sorted_counts_mset)
  then have "sum_mset (mset (map snd (sorted_counts ks))) = sum_mset (mset (map snd (value_count ks)))"
    by (simp only:)
  then show ?thesis by (simp only: sum_mset_sum_list value_count_sum)
qed

lemma sorted_counts_distinct: "distinct (map fst (sorted_counts ks))"
proof -
  have "mset (map fst (sorted_counts ks)) = mset (map fst (value_count ks))"
    by (simp add: sorted_counts_mset)
  then show ?thesis
    using value_count_distinct[of ks] mset_eq_imp_distinct_iff by blast
qed

lemma getitem_absent: "var \<notin> set (df_columns df) \<Longrightarrow> getitem df var = Inl KeyError"
proof -
  assume "var \<notin> set (df_columns df)"
  then have "filter (\<lambda>c. fst c = var) df = []"
    by (auto simp: df_columns_def filter_empty_conv)
  then show ?thesis by (simp add: getitem_def)
qed

lemma getitem_present: "var \<in> set (df_columns df) \<Longrightarrow> \<exists>sel. getitem df var = Inr sel"
proof -
  assume "var \<in> set (df_columns df)"
  then have ne: "filter (\<lambda>c. fst c = var) df \<noteq> []"
    by (auto simp: df_columns_def filter_empty_conv)
  show ?thesis
  proof (cases "filter (\<lambda>c. fst c = var) df")
    case Nil
    with ne show ?thesis by simp
  next
    case (Cons c cs)
    then show ?thesis by (cases cs) (simp_all add: getitem_def)
  qed
qed

subsection \<open>Rounding to a float\<close>

lemma bitlen_bounds: "0 < i \<Longrightarrow> 2 ^ (bitlen i - 1) \<le> i \<and> i < 2 ^ bitlen i"
proof (induction i rule: bitlen.induct)
  case (1 i)
  define h where "h = i div 2"
  have b: "bitlen i = Suc (bitlen h)"
    using "1.prems" by (subst bitlen.simps) (simp add: h_def)
  have h2: "2 * h \<le> i" "i < 2 * h + 2" unfolding h_def by linarith+
  show ?case
  proof (cases "h \<le> 0")
    case True
    then have h0: "bitlen h = 0" by (subst bitlen.simps) simp
    have "i = 1" using True h2 "1.prems" by linarith
    then show ?thesis unfolding b h0 by simp
  next
    case False
    then have hp: "0 < h" by simp
    have ih: "2 ^ (bitlen h - 1) \<le> h \<and> h < 2 ^ bitlen h"
      using "1.IH" "1.prems" hp by (simp add: h_def)
    obtain k where k: "bitlen h = Suc k"
      using hp by (subst (asm) bitlen.simps) (cases "bitlen h", simp_all)
    have lo: "(2::int) * 2 ^ k \<le> i" using ih k h2 by simp
    have hi: "i < 2 * 2 ^ Suc k" using ih k h2 by simp
    show ?thesis unfolding b k using lo hi by simp
  qed
qed

lemma bitlen_pos: "0 < i \<Longrightarrow> \<exists>k. bitlen i = Suc k"
  by (subst bitlen.simps) simp

lemma pow2_of_int_le: "(2::int) ^ k \<le> n \<Longrightarrow> (2::rat) ^ k \<le> of_int n"
proof -
  assume "(2::int) ^ k \<le> n"
  then have "(of_int (2 ^ k) :: rat) \<le> of_int n" by (simp only: of_int_le_iff)
  then show ?thesis by simp
qed

lemma of_int_le_pow2: "n \<le> (2::int) ^ k \<Longrightarrow> (of_int n :: rat) \<le> 2 ^ k"
proof -
  assume "n \<le> (2::int) ^ k"
  then have "(of_int n :: rat) \<le> of_int (2 ^ k)" by (simp only: of_int_le_iff)
  then show ?thesis by simp
qed

lemma binade_le_ge1:
  assumes "1 \<le> x"
  shows "2 powi binade x \<le> x"
proof -
  define n where "n = \<lfloor>x\<rfloor>"
  have n: "0 < n" using assms unfolding n_def by linarith
  have nx: "of_int n \<le> x" unfolding n_def by linarith
  obtain k where k: "bitlen n = Suc k" using bitlen_pos[OF n] by blast
  have e: "binade x = int k"
    using assms k by (simp add: binade_def n_def[symmetric])
  have "(2::int) ^ k \<le> n" using bitlen_bounds[OF n] k by simp
  then have p: "(2::rat) ^ k \<le> of_int n" by (rule pow2_of_int_le)
  have "(2::rat) ^ k \<le> x" by (rule order_trans[OF p nx])
  then show ?thesis by (simp add: e)
qed

lemma binade_le_lt1:
  assumes "0 < x" and "x < 1"
  shows "2 powi binade x \<le> x"
proof -
  define m where "m = \<lceil>1 / x\<rceil> - 1"
  have inv: "1 < 1 / x" using assms by simp
  then have c: "2 \<le> \<lceil>1 / x\<rceil>" by linarith
  have m: "0 < m" using c unfolding m_def by linarith
  have e: "binade x = - int (bitlen m)"
    using assms by (simp add: binade_def m_def)
  have "m < 2 ^ bitlen m" using bitlen_bounds[OF m] by simp
  then have "m + 1 \<le> 2 ^ bitlen m" by simp
  then have p: "(of_int (m + 1) :: rat) \<le> 2 ^ bitlen m" by (rule of_int_le_pow2)
  have m1: "m + 1 = \<lceil>1 / x\<rceil>" by (simp add: m_def)
  have q: "1 / x \<le> of_int (m + 1)" unfolding m1 by linarith
  have "1 / x \<le> 2 ^ bitlen m" by (rule order_trans[OF q p])
  then have "1 \<le> 2 ^ bitlen m * x"
    using assms(1) by (simp add: pos_divide_le_eq)
  then have "1 / 2 ^ bitlen m \<le> x"
    by (simp add: pos_divide_le_eq mult.commute)
  then show ?thesis unfolding e by (simp add: power_int_minus inverse_eq_divide)
qed

lemma binade_le: "0 < x \<Longrightarrow> 2 powi binade x \<le> x"
  using binade_le_ge1[of x] binade_le_lt1[of x] by (cases "1 \<le> x") simp_all

lemma rint_error: "\<bar>of_int (rint y) - y\<bar> \<le> 1 / 2"
proof -
  have lo: "of_int \<lfloor>y\<rfloor> \<le> y" and hi: "y < of_int \<lfloor>y\<rfloor> + 1"
    by linarith+
  consider (below) "y - of_int \<lfloor>y\<rfloor> < 1 / 2" | (above) "1 / 2 < y - of_int \<lfloor>y\<rfloor>"
    | (tie) "y - of_int \<lfloor>y\<rfloor> = 1 / 2"
    by linarith
  then show ?thesis
  proof cases
    case below
    then have "rint y = \<lfloor>y\<rfloor>" by (simp add: rint_def Let_def)
    then show ?thesis using below lo by simp
  next
    case above
    then have "rint y = \<lfloor>y\<rfloor> + 1" by (simp add: rint_def Let_def)
    then show ?thesis using above hi by simp
  next
    case tie
    then have "rint y = \<lfloor>y\<rfloor> \<or> rint y = \<lfloor>y\<rfloor> + 1"
      by (simp add: rint_def Let_def)
    then show ?thesis
    proof
      assume "rint y = \<lfloor>y\<rfloor>"
      then show ?thesis using tie by simp
    next
      assume "rint y = \<lfloor>y\<rfloor> + 1"
      then show ?thesis using tie by simp
    qed
  qed
qed

lemma float64_error:
  assumes "0 \<le> x"
  shows "\<bar>float64 x - x\<bar> \<le> x / 2 ^ 53"
proof (cases "x = 0")
  case True
  then show ?thesis by (simp add: float64_def)
next
  case False
  then have pos: "0 < x" using assms by simp
  define e where "e = binade x"
  define ulp where "ulp = (2::rat) powi (e - 52)"
  have ulp_pos: "0 < ulp" by (simp add: ulp_def)
  have "(2::rat) powi (e - 52) = 2 powi e / 2 powi 52"
    by (rule power_int_diff) simp
  then have ulp_eq: "ulp = 2 powi e / 2 ^ 52" by (simp add: ulp_def)
  have be: "2 powi e \<le> x" unfolding e_def by (rule binade_le[OF pos])
  have f: "float64 x = of_int (rint (x / ulp)) * ulp"
    using pos by (simp add: float64_def Let_def ulp_def e_def)
  have "float64 x - x = (of_int (rint (x / ulp)) - x / ulp) * ulp"
    using ulp_pos by (simp add: f left_diff_distrib)
  then have "\<bar>float64 x - x\<bar> = \<bar>of_int (rint (x / ulp)) - x / ulp\<bar> * ulp"
    using ulp_pos by (simp add: abs_mult)
  also have "\<dots> \<le> (1 / 2) * ulp"
    using rint_error[of "x / ulp"] ulp_pos by (rule mult_right_mono[OF _ less_imp_le])
  also have "\<dots> = 2 powi e / 2 ^ 53" by (simp add: ulp_eq)
  also have "\<dots> \<le> x / 2 ^ 53" using be by (simp add: divide_right_mono)
  finally show ?thesis .
qed

lemma float64_bounds:
  assumes "0 \<le> x"
  shows "x * (1 - eps) \<le> float64 x" and "float64 x \<le> x * (1 + eps)"
proof -
  have e: "\<bar>float64 x - x\<bar> \<le> x * eps"
    using float64_error[OF assms] by (simp add: eps_def)
  have a: "x * (1 - eps) = x - x * eps" by (simp add: right_diff_distrib)
  have b: "x * (1 + eps) = x + x * eps" by (simp add: distrib_left)
  show "x * (1 - eps) \<le> float64 x" unfolding a using e by linarith
  show "float64 x \<le> x * (1 + eps)" unfolding b using e by linarith
qed

lemma float64_step:
  assumes t: "0 \<le> t" and l: "0 \<le> L" and lo: "t * L \<le> x" and hi: "x \<le> t * U"
  shows "t * (L * (1 - eps)) \<le> float64 x" and "float64 x \<le> t * (U * (1 + eps))"
proof -
  have x0: "0 \<le> x" using t l lo by (meson mult_nonneg_nonneg order_trans)
  have e1: "0 \<le> 1 - eps" and e2: "0 \<le> 1 + eps" by (simp_all add: eps_def)
  have "t * (L * (1 - eps)) = (t * L) * (1 - eps)" by simp
  also have "\<dots> \<le> x * (1 - eps)" using lo e1 by (rule mult_right_mono)
  also have "\<dots> \<le> float64 x" by (rule float64_bounds(1)[OF x0])
  finally show "t * (L * (1 - eps)) \<le> float64 x" .
  have "float64 x \<le> x * (1 + eps)" by (rule float64_bounds(2)[OF x0])
  also have "\<dots> \<le> (t * U) * (1 + eps)" using hi e2 by (rule mult_right_mono)
  also have "\<dots> = t * (U * (1 + eps))" by simp
  finally show "float64 x \<le> t * (U * (1 + eps))" .
qed

lemma scale_step:
  fixes t :: rat
  assumes "t * L \<le> x" and "x \<le> t * U"
  shows "t * (L * 100) \<le> x * 100" and "x * 100 \<le> t * (U * 100)"
  using assms by simp_all

lemma eps_facts: "0 \<le> 1 - eps" "0 < 1 - eps" "0 \<le> 1 + eps" "0 < 1 + eps"
  by (simp_all add: eps_def)

lemma lower_factor:
  "10000 - 1 / 10 ^ 10 \<le> (1 - eps) / (1 + eps) * (1 - eps) * 100 * (1 - eps) * 100 * (1 - eps)"
  by (simp add: eps_def)

lemma upper_factor:
  "(1 + eps) / (1 - eps) * (1 + eps) * 100 * (1 + eps) * 100 * (1 + eps) \<le> 10000 + 1 / 10 ^ 10"
  by (simp add: eps_def)

lemma share_bounds:
  assumes n: "0 < n"
  shows "(of_nat c / of_nat n) * ((1 - eps) / (1 + eps)) \<le> float64 (of_nat c) / float64 (of_nat n)"
    and "float64 (of_nat c) / float64 (of_nat n) \<le> (of_nat c / of_nat n) * ((1 + eps) / (1 - eps))"
proof -
  define cr where "cr = (of_nat c :: rat)"
  define nr where "nr = (of_nat n :: rat)"
  define a where "a = float64 cr"
  define b where "b = float64 nr"
  have c0: "0 \<le> cr" and n0: "0 < nr" using n by (simp_all add: cr_def nr_def)
  have n00: "0 \<le> nr" using n0 by simp
  have a1: "cr * (1 - eps) \<le> a" unfolding a_def by (rule float64_bounds(1)[OF c0])
  have a2: "a \<le> cr * (1 + eps)" unfolding a_def by (rule float64_bounds(2)[OF c0])
  have b1: "nr * (1 - eps) \<le> b" unfolding b_def by (rule float64_bounds(1)[OF n00])
  have b2: "b \<le> nr * (1 + eps)" unfolding b_def by (rule float64_bounds(2)[OF n00])
  have nl: "0 < nr * (1 - eps)" using n0 eps_facts(2) by (rule mult_pos_pos)
  have bpos: "0 < b" using nl b1 by (rule less_le_trans)
  have cl0: "0 \<le> cr * (1 - eps)" using c0 eps_facts(1) by (rule mult_nonneg_nonneg)
  have a0: "0 \<le> a" using cl0 a1 by (rule order_trans)
  have cu0: "0 \<le> cr * (1 + eps)" using c0 eps_facts(3) by (rule mult_nonneg_nonneg)
  have lo: "cr * (1 - eps) / (nr * (1 + eps)) \<le> a / b"
    using a0 a1 bpos b2 by (rule frac_le)
  have hi: "a / b \<le> cr * (1 + eps) / (nr * (1 - eps))"
    using cu0 a2 nl b1 by (rule frac_le)
  have e1: "(cr / nr) * ((1 - eps) / (1 + eps)) = cr * (1 - eps) / (nr * (1 + eps))"
    by (rule times_divide_times_eq)
  have e2: "(cr / nr) * ((1 + eps) / (1 - eps)) = cr * (1 + eps) / (nr * (1 - eps))"
    by (rule times_divide_times_eq)
  show "(of_nat c / of_nat n) * ((1 - eps) / (1 + eps)) \<le> float64 (of_nat c) / float64 (of_nat n)"
    unfolding cr_def[symmetric] nr_def[symmetric] a_def[symmetric] b_def[symmetric] e1 by (rule lo)
  show "float64 (of_nat c) / float64 (of_nat n) \<le> (of_nat c / of_nat n) * ((1 + eps) / (1 - eps))"
    unfolding cr_def[symmetric] nr_def[symmetric] a_def[symmetric] b_def[symmetric] e2 by (rule hi)
qed

lemma hundredths_error:
  assumes n: "0 < n"
  shows "\<bar>of_int (hundredths c n) - 10000 * (of_nat c / of_nat n :: rat)\<bar>
           \<le> 1 / 2 + (of_nat c / of_nat n) / 10 ^ 10"
proof -
  define t where "t = (of_nat c :: rat) / of_nat n"
  define d where "d = float64 (of_nat c) / float64 (of_nat n)"
  define q where "q = float64 d"
  define y where "y = float64 (q * 100)"
  define z where "z = float64 (y * 100)"
  have t0: "0 \<le> t" by (simp add: t_def)
  have d1: "t * ((1 - eps) / (1 + eps)) \<le> d"
    unfolding d_def t_def by (rule share_bounds(1)[OF n])
  have d2: "d \<le> t * ((1 + eps) / (1 - eps))"
    unfolding d_def t_def by (rule share_bounds(2)[OF n])
  have l1: "0 \<le> (1 - eps) / (1 + eps)" by (simp add: eps_def)
  have q1: "t * ((1 - eps) / (1 + eps) * (1 - eps)) \<le> q"
    unfolding q_def by (rule float64_step(1)[OF t0 l1 d1 d2])
  have q2: "q \<le> t * ((1 + eps) / (1 - eps) * (1 + eps))"
    unfolding q_def by (rule float64_step(2)[OF t0 l1 d1 d2])
  have s1: "t * ((1 - eps) / (1 + eps) * (1 - eps) * 100) \<le> q * 100"
    by (rule scale_step(1)[OF q1 q2])
  have s2: "q * 100 \<le> t * ((1 + eps) / (1 - eps) * (1 + eps) * 100)"
    by (rule scale_step(2)[OF q1 q2])
  have l2: "0 \<le> (1 - eps) / (1 + eps) * (1 - eps) * 100" by (simp add: eps_def)
  have y1: "t * ((1 - eps) / (1 + eps) * (1 - eps) * 100 * (1 - eps)) \<le> y"
    unfolding y_def by (rule float64_step(1)[OF t0 l2 s1 s2])
  have y2: "y \<le> t * ((1 + eps) / (1 - eps) * (1 + eps) * 100 * (1 + eps))"
    unfolding y_def by (rule float64_step(2)[OF t0 l2 s1 s2])
  have r1: "t * ((1 - eps) / (1 + eps) * (1 - eps) * 100 * (1 - eps) * 100) \<le> y * 100"
    by (rule scale_step(1)[OF y1 y2])
  have r2: "y * 100 \<le> t * ((1 + eps) / (1 - eps) * (1 + eps) * 100 * (1 + eps) * 100)"
    by (rule scale_step(2)[OF y1 y2])
  have l3: "0 \<le> (1 - eps) / (1 + eps) * (1 - eps) * 100 * (1 - eps) * 100" by (simp add: eps_def)
  have z1: "t * ((1 - eps) / (1 + eps) * (1 - eps) * 100 * (1 - eps) * 100 * (1 - eps)) \<le> z"
    unfolding z_def by (rule float64_step(1)[OF t0 l3 r1 r2])
  have z2: "z \<le> t * ((1 + eps) / (1 - eps) * (1 + eps) * 100 * (1 + eps) * 100 * (1 + eps))"
    unfolding z_def by (rule float64_step(2)[OF t0 l3 r1 r2])
  have "t * (10000 - 1 / 10 ^ 10) \<le> z"
    using mult_left_mono[OF lower_factor t0] z1 by (rule order_trans)
  moreover have "t * (10000 - 1 / 10 ^ 10) = 10000 * t - t / 10 ^ 10"
    by (simp add: right_diff_distrib)
  ultimately have lo: "10000 * t - t / 10 ^ 10 \<le> z" by (simp only:)
  have "z \<le> t * (10000 + 1 / 10 ^ 10)"
    using z2 mult_left_mono[OF upper_factor t0] by (rule order_trans)
  moreover have "t * (10000 + 1 / 10 ^ 10) = 10000 * t + t / 10 ^ 10"
    by (simp add: distrib_left)
  ultimately have hi: "z \<le> 10000 * t + t / 10 ^ 10" by (simp only:)
  have h: "hundredths c n = rint z"
    by (simp only: hundredths_def z_def y_def q_def d_def)
  have "\<bar>of_int (rint z) - z\<bar> \<le> 1 / 2" by (rule rint_error)
  then have "\<bar>of_int (rint z) - 10000 * t\<bar> \<le> 1 / 2 + t / 10 ^ 10"
    using lo hi by linarith
  then show ?thesis unfolding h t_def .
qed

subsection \<open>The table of a field\<close>

lemma percentages_eq:
  "percentages (Series col) =
     Inr (map (\<lambda>kc. (fst kc, of_int (hundredths (snd kc) (length (non_missing col))) / 100))
            (sorted_counts (non_missing col)))"
  by (simp add: value_counts_normalize_def mul_100_def round_2_def hundredths_def Let_def
      sorted_counts_sum comp_def)

lemma hundredths_sum_error:
  assumes n: "0 < n"
  shows "\<bar>sum_list (map (\<lambda>kc. of_int (hundredths (snd kc) n)) cs)
          - 10000 * (of_nat (sum_list (map snd cs)) / of_nat n :: rat)\<bar>
           \<le> of_nat (length cs) / 2 + (of_nat (sum_list (map snd cs)) / of_nat n) / 10 ^ 10"
proof (induction cs)
  case Nil
  then show ?case by simp
next
  case (Cons a cs)
  define h where "h = (of_int (hundredths (snd a) n) :: rat)"
  define ta where "ta = (of_nat (snd a) :: rat) / of_nat n"
  define H where "H = sum_list (map (\<lambda>kc. of_int (hundredths (snd kc) n) :: rat) cs)"
  define T where "T = (of_nat (sum_list (map snd cs)) :: rat) / of_nat n"
  define k where "k = (of_nat (length cs) :: rat)"
  have step: "\<bar>h - 10000 * ta\<bar> \<le> 1 / 2 + ta / 10 ^ 10"
    unfolding h_def ta_def by (rule hundredths_error[OF n])
  have ih: "\<bar>H - 10000 * T\<bar> \<le> k / 2 + T / 10 ^ 10"
    unfolding H_def T_def k_def by (rule Cons.IH)
  have e1: "sum_list (map (\<lambda>kc. of_int (hundredths (snd kc) n) :: rat) (a # cs)) = h + H"
    by (simp add: h_def H_def)
  have e2: "(of_nat (sum_list (map snd (a # cs))) :: rat) / of_nat n = ta + T"
    by (simp add: ta_def T_def add_divide_distrib)
  have e3: "(of_nat (length (a # cs)) :: rat) / 2 = 1 / 2 + k / 2"
    by (simp add: k_def add_divide_distrib)
  have "\<bar>(h + H) - 10000 * (ta + T)\<bar> \<le> (1 / 2 + k / 2) + (ta + T) / 10 ^ 10"
    using step ih by (simp add: add_divide_distrib)
  then show ?case unfolding e1 e2 e3 .
qed

lemma near_integer:
  fixes r :: int and k :: nat
  assumes "\<bar>of_int r - (10000::rat)\<bar> \<le> of_nat k / 2 + 1 / 10 ^ 10"
  shows "\<bar>of_int r - (10000::rat)\<bar> \<le> of_nat k / 2"
proof -
  define d where "d = \<bar>r - 10000\<bar>"
  have a: "\<bar>of_int r - (10000::rat)\<bar> = of_int d" by (simp add: d_def)
  have "(of_int (2 * d) :: rat) \<le> of_nat k + 2 / 10 ^ 10"
    using assms unfolding a by simp
  then have "(of_int (2 * d) :: rat) < of_int (int k + 1)" by simp
  then have "2 * d < int k + 1" by (simp only: of_int_less_iff)
  then have "2 * d \<le> int k" by simp
  then have "(of_int (2 * d) :: rat) \<le> of_int (int k)" by (simp only: of_int_le_iff)
  then show ?thesis unfolding a by simp
qed

lemma of_int_sum_list: "(of_int (sum_list xs) :: rat) = sum_list (map of_int xs)"
  by (induction xs) simp_all

lemma percentages_sum:
  assumes "non_missing col \<noteq> []" and "percentages (Series col) = Inr table"
  shows "\<bar>sum_list (map snd table) - 100\<bar> \<le> of_nat (length table) / 200"
proof -
  define n where "n = length (non_missing col)"
  define cs where "cs = sorted_counts (non_missing col)"
  define hs where "hs = map (\<lambda>kc. hundredths (snd kc) n) cs"
  have n: "0 < n" using assms(1) by (simp add: n_def)
  have table: "table = map (\<lambda>kc. (fst kc, of_int (hundredths (snd kc) n) / 100)) cs"
    using assms(2) unfolding percentages_eq n_def cs_def by simp
  have len: "length table = length cs" by (simp add: table)
  have total: "sum_list (map snd cs) = n"
    by (simp add: cs_def n_def sorted_counts_sum)
  have "\<bar>sum_list (map (\<lambda>kc. of_int (hundredths (snd kc) n)) cs)
          - 10000 * (of_nat (sum_list (map snd cs)) / of_nat n :: rat)\<bar>
           \<le> of_nat (length cs) / 2 + (of_nat (sum_list (map snd cs)) / of_nat n) / 10 ^ 10"
    by (rule hundredths_sum_error[OF n])
  moreover have "sum_list (map (\<lambda>kc. of_int (hundredths (snd kc) n) :: rat) cs) = of_int (sum_list hs)"
    by (simp add: hs_def of_int_sum_list comp_def)
  moreover have "(of_nat (sum_list (map snd cs)) :: rat) / of_nat n = 1"
    using n by (simp add: total)
  ultimately have "\<bar>of_int (sum_list hs) - (10000::rat)\<bar> \<le> of_nat (length cs) / 2 + 1 / 10 ^ 10"
    by simp
  then have b: "\<bar>of_int (sum_list hs) - (10000::rat)\<bar> \<le> of_nat (length cs) / 2"
    by (rule near_integer)
  have "sum_list (map snd table) = sum_list (map (\<lambda>kc. of_int (hundredths (snd kc) n) / 100) cs)"
    by (simp add: table comp_def)
  also have "\<dots> = sum_list (map (\<lambda>kc. of_int (hundredths (snd kc) n)) cs) / 100"
    by (induction cs) (simp_all add: add_divide_distrib)
  also have "\<dots> = of_int (sum_list hs) / 100"
    by (simp add: hs_def of_int_sum_list comp_def)
  finally have s: "sum_list (map snd table) = of_int (sum_list hs) / 100" .
  show ?thesis unfolding s len using b by linarith
qed

lemma percentages_entry:
  assumes "percentages (Series col) = Inr table" and "kp \<in> set table"
  shows "\<exists>h. snd kp = of_int h / 100 \<and>
             \<bar>snd kp - 100 * (of_nat (count_list (non_missing col) (fst kp))
                               / of_nat (length (non_missing col)))\<bar>
               \<le> 1 / 200 + 1 / 10 ^ 12"
proof -
  define n where "n = length (non_missing col)"
  define cs where "cs = sorted_counts (non_missing col)"
  have table: "table = map (\<lambda>kc. (fst kc, of_int (hundredths (snd kc) n) / 100)) cs"
    using assms(1) unfolding percentages_eq n_def cs_def by simp
  obtain kc where kc: "kc \<in> set cs" and kp: "kp = (fst kc, of_int (hundredths (snd kc) n) / 100)"
    using assms(2) unfolding table by auto
  have kcv: "kc \<in> set (value_count (non_missing col))"
    using kc by (simp add: cs_def sorted_counts_set)
  have cnt: "snd kc = count_list (non_missing col) (fst kc)"
    using kcv by (rule value_count_entry)
  have "fst kc \<in> fst ` set (value_count (non_missing col))" using kcv by (rule imageI)
  then have mem: "fst kc \<in> set (non_missing col)" by (simp only: value_count_keys)
  then have n: "0 < n" by (auto simp: n_def)
  define c where "c = snd kc"
  define t where "t = (of_nat c :: rat) / of_nat n"
  have "c \<le> n" unfolding c_def cnt n_def by (rule count_le_length)
  then have t1: "t \<le> 1" using n by (simp add: t_def)
  have e: "\<bar>of_int (hundredths c n) - 10000 * t\<bar> \<le> 1 / 2 + t / 10 ^ 10"
    unfolding t_def by (rule hundredths_error[OF n])
  have "\<bar>of_int (hundredths c n) / 100 - 100 * t\<bar> \<le> 1 / 200 + 1 / 10 ^ 12"
    using e t1 by (simp add: field_simps)
  then have "\<bar>snd kp - 100 * (of_nat (count_list (non_missing col) (fst kp)) / of_nat n)\<bar>
               \<le> 1 / 200 + 1 / 10 ^ 12"
    by (simp add: kp c_def[symmetric] t_def cnt[symmetric])
  moreover have "snd kp = of_int (hundredths c n) / 100" by (simp add: kp c_def)
  ultimately show ?thesis unfolding n_def by blast
qed

lemma percentages_keys:
  assumes "percentages (Series col) = Inr table"
  shows "distinct (map fst table) \<and> set (map fst table) = set (non_missing col)"
proof -
  have m: "map fst table = map fst (sorted_counts (non_missing col))"
    using assms unfolding percentages_eq by (auto simp: comp_def)
  show ?thesis
    unfolding m
    by (simp add: sorted_counts_distinct sorted_counts_set value_count_keys)
qed

subsection \<open>The loop over the expected fields\<close>

lemma percentages_series: "\<exists>table. percentages (Series col) = Inr table"
  by simp

lemma single_field_cases:
  assumes "length (filter (\<lambda>c. fst c = w) df) \<le> 1"
  shows "getitem df w = Inl KeyError \<or> (\<exists>col. getitem df w = Inr (Series col))"
proof (cases "filter (\<lambda>c. fst c = w) df")
  case Nil
  then show ?thesis by (simp add: getitem_def)
next
  case (Cons c cs)
  with assms have "cs = []" by simp
  with Cons show ?thesis by (simp add: getitem_def)
qed

lemma single_fields_getitem:
  assumes "single_fields df" and "w \<in> set demographic_vars"
  shows "getitem df w = Inl KeyError \<or> (\<exists>col. getitem df w = Inr (Series col))"
proof -
  have "length (filter (\<lambda>c. fst c = w) df) \<le> 1"
    using assms by (simp add: single_fields_def list_all_iff)
  then show ?thesis by (rule single_field_cases)
qed

lemma field_report_absent:
  "w \<notin> set (df_columns df) \<Longrightarrow> field_report df w = Inr [Column_not_found w]"
  by (simp add: field_report_def getitem_absent)

lemma field_report_series:
  "getitem df w = Inr (Series col) \<Longrightarrow> percentages (Series col) = Inr table \<Longrightarrow>
   field_report df w = Inr [Info_analysis_of w, Percent_table table]"
  by (simp add: field_report_def and_then_def)

lemma demographics_loop_step:
  "demographics_loop df (var # vars) =
     and_then (field_report df var) (\<lambda>ms.
     and_then (demographics_loop df vars) (\<lambda>rest. Inr (ms @ rest)))"
proof (cases "var \<in> set (df_columns df)")
  case False
  then show ?thesis by (simp add: field_report_absent and_then_def split: sum.split)
next
  case True
  then obtain sel where sel: "getitem df var = Inr sel" using getitem_present by blast
  show ?thesis
  proof (cases "percentages sel")
    case (Inl e)
    with True sel show ?thesis by (simp add: field_report_def and_then_def)
  next
    case (Inr table)
    with True sel show ?thesis
      by (cases "demographics_loop df vars") (simp_all add: field_report_def and_then_def)
  qed
qed

lemma demographics_loop_ok:
  assumes "\<forall>w\<in>set vars. \<exists>ms. field_report df w = Inr ms"
  shows "\<exists>out. demographics_loop df vars = Inr out \<and>
           (\<forall>w\<in>set vars. \<exists>ms pre post. field_report df w = Inr ms \<and> out = pre @ ms @ post) \<and>
           (\<forall>m\<in>set out. \<exists>w\<in>set vars. \<exists>ms. field_report df w = Inr ms \<and> m \<in> set ms)"
  using assms
proof (induction vars)
  case Nil
  then show ?case by simp
next
  case (Cons var vars)
  obtain ms where ms: "field_report df var = Inr ms" using Cons.prems by auto
  obtain rest where rest: "demographics_loop df vars = Inr rest"
    and each: "\<forall>w\<in>set vars. \<exists>ms pre post. field_report df w = Inr ms \<and> rest = pre @ ms @ post"
    and members: "\<forall>m\<in>set rest. \<exists>w\<in>set vars. \<exists>ms. field_report df w = Inr ms \<and> m \<in> set ms"
    using Cons.IH Cons.prems by auto
  have run: "demographics_loop df (var # vars) = Inr (ms @ rest)"
    by (simp only: demographics_loop_step ms rest and_then_def sum.case)
  have a: "\<exists>ms' pre post. field_report df w = Inr ms' \<and> ms @ rest = pre @ ms' @ post"
    if w: "w \<in> set (var # vars)" for w
  proof (cases "w = var")
    case True
    have "ms @ rest = [] @ ms @ rest" by simp
    with ms True show ?thesis by blast
  next
    case False
    with w have "w \<in> set vars" by simp
    then obtain ms' pre post where "field_report df w = Inr ms'" "rest = pre @ ms' @ post"
      using each by blast
    then have "field_report df w = Inr ms' \<and> ms @ rest = (ms @ pre) @ ms' @ post" by simp
    then show ?thesis by blast
  qed
  have b: "\<exists>w\<in>set (var # vars). \<exists>ms'. field_report df w = Inr ms' \<and> m \<in> set ms'"
    if m: "m \<in> set (ms @ rest)" for m
  proof (cases "m \<in> set ms")
    case True
    with ms show ?thesis by auto
  next
    case False
    with m have "m \<in> set rest" by simp
    then show ?thesis using members by auto
  qed
  show ?case using run a b by blast
qed

lemma demographics_loop_raises:
  assumes "w \<in> set vars" and "getitem df w = Inr (Frame cols)"
  shows "demographics_loop df vars = Inl ValueError"
  using assms(1)
proof (induction vars)
  case Nil
  then show ?case by simp
next
  case (Cons var vars)
  have fw: "field_report df w = Inl ValueError"
    using assms(2) by (simp add: field_report_def and_then_def)
  show ?case
  proof (cases "field_report df var")
    case (Inl e)
    have "e = ValueError"
    proof (cases "getitem df var")
      case (Inl e')
      with \<open>field_report df var = Inl e\<close> show ?thesis by (simp add: field_report_def)
    next
      case (Inr sel)
      with \<open>field_report df var = Inl e\<close> show ?thesis
        by (cases sel) (simp_all add: field_report_def and_then_def)
    qed
    with Inl have "field_report df var = Inl ValueError" by simp
    then show ?thesis by (simp only: demographics_loop_step and_then_def sum.case)
  next
    case (Inr ms)
    with fw have "w \<noteq> var" by auto
    with Cons have "demographics_loop df vars = Inl ValueError" by simp
    with Inr show ?thesis by (simp only: demographics_loop_step and_then_def sum.case)
  qed
qed

lemma field_report_single:
  assumes "single_fields df" and "w \<in> set demographic_vars"
  shows "(w \<notin> set (df_columns df) \<and> field_report df w = Inr [Column_not_found w]) \<or>
         (\<exists>col table. w \<in> set (df_columns df) \<and> getitem df w = Inr (Series col) \<and>
            percentages (Series col) = Inr table \<and>
            field_report df w = Inr [Info_analysis_of w, Percent_table table])"
proof (cases "w \<in> set (df_columns df)")
  case False
  then show ?thesis by (simp add: field_report_absent)
next
  case True
  then have "getitem df w \<noteq> Inl KeyError"
    using getitem_present[OF True] by auto
  then obtain col where col: "getitem df w = Inr (Series col)"
    using single_fields_getitem[OF assms] by blast
  obtain table where table: "percentages (Series col) = Inr table"
    using percentages_series by blast
  show ?thesis
    using True col table field_report_series[OF col table] by blast
qed

lemma analyze_single_fields:
  assumes "single_fields df"
  shows "\<exists>out. analyze_demographics df = Inr (Demographics_header # out) \<and>
           (\<forall>w\<in>set demographic_vars.
              \<exists>ms pre post. field_report df w = Inr ms \<and> out = pre @ ms @ post) \<and>
           (\<forall>m\<in>set out. \<exists>w\<in>set demographic_vars. \<exists>ms. field_report df w = Inr ms \<and> m \<in> set ms)"
proof -
  have "\<forall>w\<in>set demographic_vars. \<exists>ms. field_report df w = Inr ms"
    using field_report_single[OF assms] by blast
  then obtain out where "demographics_loop df demographic_vars = Inr out"
    and "\<forall>w\<in>set demographic_vars. \<exists>ms pre post. field_report df w = Inr ms \<and> out = pre @ ms @ post"
    and "\<forall>m\<in>set out. \<exists>w\<in>set demographic_vars. \<exists>ms. field_report df w = Inr ms \<and> m \<in> set ms"
    using demographics_loop_ok[of demographic_vars df] by blast
  then show ?thesis by (simp add: analyze_demographics_def and_then_def)
qed

text \<open>
  An expected field that labels two columns makes the analysis raise \<open>ValueError\<close>,
  whatever the other fields are.
\<close>

lemma duplicate_field_raises:
  assumes "w \<in> set demographic_vars" and "getitem df w = Inr (Frame cols)"
  shows "analyze_demographics df = Inl ValueError"
  using demographics_loop_raises[OF assms]
  by (simp add: analyze_demographics_def and_then_def)

text \<open>
  C8. On a dataset where no expected field labels two columns, an expected field that
  is not among the columns does not make the analysis fail: it prints the warning for
  that field and no table for it, and still handles every other expected field, printing
  the table of each one present and the warning of each one absent.
\<close>

theorem absent_field_warns:
  assumes "single_fields df"
    and "var \<in> set demographic_vars"
    and "var \<notin> set (df_columns df)"
  shows "\<exists>out. analyze_demographics df = Inr out \<and>
           Column_not_found var \<in> set out \<and> Info_analysis_of var \<notin> set out \<and>
           (\<forall>w\<in>set demographic_vars.
              (w \<notin> set (df_columns df) \<longrightarrow> Column_not_found w \<in> set out) \<and>
              (w \<in> set (df_columns df) \<longrightarrow>
                 (\<exists>col table pre post.
                    getitem df w = Inr (Series col) \<and> percentages (Series col) = Inr table \<and>
                    out = pre @ [Info_analysis_of w, Percent_table table] @ post)))"
proof -
  obtain out where run: "analyze_demographics df = Inr (Demographics_header # out)"
    and each: "\<forall>w\<in>set demographic_vars.
                 \<exists>ms pre post. field_report df w = Inr ms \<and> out = pre @ ms @ post"
    and only: "\<forall>m\<in>set out. \<exists>w\<in>set demographic_vars. \<exists>ms. field_report df w = Inr ms \<and> m \<in> set ms"
    using analyze_single_fields[OF assms(1)] by blast
  have warn: "Column_not_found w \<in> set (Demographics_header # out)"
    if w1: "w \<in> set demographic_vars" and w2: "w \<notin> set (df_columns df)" for w
  proof -
    obtain ms pre post where "field_report df w = Inr ms" "out = pre @ ms @ post"
      using each w1 by blast
    then show ?thesis using field_report_absent[OF w2] by auto
  qed
  have table: "\<exists>col table pre post.
      getitem df w = Inr (Series col) \<and> percentages (Series col) = Inr table \<and>
      Demographics_header # out = pre @ [Info_analysis_of w, Percent_table table] @ post"
    if w1: "w \<in> set demographic_vars" and w2: "w \<in> set (df_columns df)" for w
  proof -
    obtain col table where col: "getitem df w = Inr (Series col)"
      and tab: "percentages (Series col) = Inr table"
      and fr: "field_report df w = Inr [Info_analysis_of w, Percent_table table]"
      using field_report_single[OF assms(1) w1] w2 by blast
    obtain ms pre post where "field_report df w = Inr ms" "out = pre @ ms @ post"
      using each w1 by blast
    with fr have "Demographics_header # out =
        (Demographics_header # pre) @ [Info_analysis_of w, Percent_table table] @ post"
      by simp
    with col tab show ?thesis by blast
  qed
  have no_info: "Info_analysis_of var \<notin> set (Demographics_header # out)"
  proof
    assume "Info_analysis_of var \<in> set (Demographics_header # out)"
    then have "Info_analysis_of var \<in> set out" by simp
    then obtain w ms where w: "w \<in> set demographic_vars" and ms: "field_report df w = Inr ms"
      and m: "Info_analysis_of var \<in> set ms"
      using only by blast
    show False
    proof (cases "w \<in> set (df_columns df)")
      case False
      with ms m show False by (auto simp: field_report_absent)
    next
      case True
      then obtain table where "field_report df w = Inr [Info_analysis_of w, Percent_table table]"
        using field_report_single[OF assms(1) w] by blast
      with ms m have "w = var" by auto
      with True assms(3) show False by simp
    qed
  qed
  show ?thesis
    using run warn[OF assms(2,3)] no_info warn table by blast
qed

theorem absent_field_warns_witness:
  "single_fields [(py ''sexo'', [Text (py ''F''), Text (py ''M''), Missing, Text (py ''F'')])] \<and>
   py ''depto'' \<in> set demographic_vars \<and>
   py ''depto'' \<notin> set (df_columns [(py ''sexo'', [Text (py ''F''), Text (py ''M''), Missing, Text (py ''F'')])]) \<and>
   (\<exists>out. analyze_demographics [(py ''sexo'', [Text (py ''F''), Text (py ''M''), Missing, Text (py ''F'')])] = Inr out \<and>
      Column_not_found (py ''depto'') \<in> set out \<and>
      Info_analysis_of (py ''depto'') \<notin> set out \<and>
      Column_not_found (py ''edad_tramo'') \<in> set out \<and>
      (\<exists>col table pre post.
         getitem [(py ''sexo'', [Text (py ''F''), Text (py ''M''), Missing, Text (py ''F'')])] (py ''sexo'') =
           Inr (Series col) \<and>
         percentages (Series col) = Inr table \<and>
         out = pre @ [Info_analysis_of (py ''sexo''), Percent_table table] @ post))"
proof -
  let ?df = "[(py ''sexo'', [Text (py ''F''), Text (py ''M''), Missing, Text (py ''F'')])]"
  have s: "single_fields ?df" by (simp add: single_fields_def demographic_vars_def)
  have v1: "py ''depto'' \<in> set demographic_vars" by (simp add: demographic_vars_def)
  have v2: "py ''edad_tramo'' \<in> set demographic_vars" by (simp add: demographic_vars_def)
  have v3: "py ''sexo'' \<in> set demographic_vars" by (simp add: demographic_vars_def)
  have c1: "py ''depto'' \<notin> set (df_columns ?df)" by (simp add: df_columns_def py_def)
  have c2: "py ''edad_tramo'' \<notin> set (df_columns ?df)" by (simp add: df_columns_def py_def)
  have c3: "py ''sexo'' \<in> set (df_columns ?df)" by (simp add: df_columns_def)
  show ?thesis
    using absent_field_warns [OF s v1 c1] s v1 v2 v3 c1 c2 c3 by blast
qed

text \<open>
  C9. On a dataset where no expected field labels two columns, for an expected field
  that is present and has a non-missing row the analysis prints a table with one line for
  each distinct observed value. Each percentage is a whole number of hundredths and is
  the number of rows with that value over the number of non-missing rows, times 100, to
  within half a hundredth (and the 1e-12 that the float operations can add). The
  percentages add up to 100 within the rounding tolerance: half a hundredth for each line
  of the table.
\<close>

theorem percentages_of_present_field:
  assumes "single_fields df"
    and "var \<in> set demographic_vars"
    and "getitem df var = Inr (Series col)"
    and "non_missing col \<noteq> []"
  shows "\<exists>table. percentages (Series col) = Inr table \<and>
           (\<exists>pre post. analyze_demographics df =
              Inr (pre @ [Info_analysis_of var, Percent_table table] @ post)) \<and>
           distinct (map fst table) \<and>
           set (map fst table) = set (non_missing col) \<and>
           (\<forall>kp\<in>set table.
              \<exists>h. snd kp = of_int h / 100 \<and>
                  \<bar>snd kp - 100 * (of_nat (count_list (non_missing col) (fst kp))
                                    / of_nat (length (non_missing col)))\<bar>
                    \<le> 1 / 200 + 1 / 10 ^ 12) \<and>
           \<bar>sum_list (map snd table) - 100\<bar> \<le> of_nat (length table) / 200"
proof -
  obtain table where table: "percentages (Series col) = Inr table"
    using percentages_series by blast
  have fr: "field_report df var = Inr [Info_analysis_of var, Percent_table table]"
    by (rule field_report_series[OF assms(3) table])
  obtain out where run: "analyze_demographics df = Inr (Demographics_header # out)"
    and each: "\<forall>w\<in>set demographic_vars.
                 \<exists>ms pre post. field_report df w = Inr ms \<and> out = pre @ ms @ post"
    using analyze_single_fields[OF assms(1)] by blast
  obtain ms pre post where "field_report df var = Inr ms" "out = pre @ ms @ post"
    using each assms(2) by blast
  with fr have "Demographics_header # out =
      (Demographics_header # pre) @ [Info_analysis_of var, Percent_table table] @ post"
    by simp
  with run have a: "\<exists>pre post. analyze_demographics df =
              Inr (pre @ [Info_analysis_of var, Percent_table table] @ post)"
    by metis
  show ?thesis
    using table a percentages_keys[OF table] percentages_entry[OF table]
      percentages_sum[OF assms(4) table]
    by blast
qed

text \<open>
  The floats decide the second decimal: 23 rows of 160 are 14.375 percent, and 14.37 is
  printed, because the float product is just below; 137 of 160 are 85.625 percent
  exactly, a tie that goes to the even 85.62.
\<close>

lemma printed_23_of_160: "hundredths 23 160 = 1437"
  by code_simp

lemma printed_137_of_160: "hundredths 137 160 = 8562"
  by code_simp

lemma sample_counts:
  "sorted_counts (non_missing (replicate 23 (Text (py ''F'')) @ Missing # replicate 137 (Text (py ''M'')))) =
     [(Text (py ''M''), 137), (Text (py ''F''), 23)]"
  by code_simp

lemma sample_length:
  "length (non_missing (replicate 23 (Text (py ''F'')) @ Missing # replicate 137 (Text (py ''M'')))) = 160"
  by code_simp

lemma sample_table:
  "percentages (Series (replicate 23 (Text (py ''F'')) @ Missing # replicate 137 (Text (py ''M'')))) =
     Inr [(Text (py ''M''), 8562 / 100), (Text (py ''F''), 1437 / 100)]"
  unfolding percentages_eq sample_counts sample_length
  by (simp add: printed_23_of_160 printed_137_of_160)

theorem percentages_of_present_field_witness:
  "single_fields [(py ''sexo'', replicate 23 (Text (py ''F'')) @ Missing # replicate 137 (Text (py ''M'')))] \<and>
   py ''sexo'' \<in> set demographic_vars \<and>
   getitem [(py ''sexo'', replicate 23 (Text (py ''F'')) @ Missing # replicate 137 (Text (py ''M'')))] (py ''sexo'') =
     Inr (Series (replicate 23 (Text (py ''F'')) @ Missing # replicate 137 (Text (py ''M'')))) \<and>
   non_missing (replicate 23 (Text (py ''F'')) @ Missing # replicate 137 (Text (py ''M''))) \<noteq> [] \<and>
   percentages (Series (replicate 23 (Text (py ''F'')) @ Missing # replicate 137 (Text (py ''M'')))) =
     Inr [(Text (py ''M''), 8562 / 100), (Text (py ''F''), 1437 / 100)] \<and>
   (\<exists>pre post.
      analyze_demographics [(py ''sexo'', replicate 23 (Text (py ''F'')) @ Missing # replicate 137 (Text (py ''M'')))] =
        Inr (pre @ [Info_analysis_of (py ''sexo''),
                    Percent_table [(Text (py ''M''), 8562 / 100), (Text (py ''F''), 1437 / 100)]] @ post)) \<and>
   \<bar>sum_list (map snd [(Text (py ''M''), 8562 / 100 :: rat), (Text (py ''F''), 1437 / 100)]) - 100\<bar>
     \<le> of_nat (length [(Text (py ''M''), 8562 / 100 :: rat), (Text (py ''F''), 1437 / 100)]) / 200"
proof -
  define col where "col = replicate 23 (Text (py ''F'')) @ Missing # replicate 137 (Text (py ''M''))"
  define T where "T = [(Text (py ''M''), 8562 / 100 :: rat), (Text (py ''F''), 1437 / 100)]"
  have s: "single_fields [(py ''sexo'', col)]"
    by (simp add: single_fields_def demographic_vars_def)
  have v: "py ''sexo'' \<in> set demographic_vars" by (simp add: demographic_vars_def)
  have g: "getitem [(py ''sexo'', col)] (py ''sexo'') = Inr (Series col)"
    by (simp add: getitem_def)
  have "length (non_missing col) = 160" unfolding col_def by (rule sample_length)
  then have r: "non_missing col \<noteq> []" by auto
  have t: "percentages (Series col) = Inr T" unfolding col_def T_def by (rule sample_table)
  obtain table where table: "percentages (Series col) = Inr table"
    and out: "\<exists>pre post. analyze_demographics [(py ''sexo'', col)] =
              Inr (pre @ [Info_analysis_of (py ''sexo''), Percent_table table] @ post)"
    and total: "\<bar>sum_list (map snd table) - 100\<bar> \<le> of_nat (length table) / 200"
    using percentages_of_present_field [OF s v g r] by blast
  have eq: "table = T" using table t by simp
  show ?thesis
    using s v g r t out total unfolding eq col_def T_def by blast
qed

lemma duplicate_sexo_raises:
  "analyze_demographics [(py ''sexo'', [Text (py ''F'')]), (py ''sexo'', [Text (py ''M'')])] =
     Inl ValueError"
  by (rule duplicate_field_raises[where w = "py ''sexo''" and cols = "[[Text (py ''F'')], [Text (py ''M'')]]"])
     (simp_all add: demographic_vars_def getitem_def)

end
